theory Spec2Isabelle
  imports Main "HOL-Library.Char_ord" "HOL-Library.List_Lexorder"
begin

section \<open>Strings and characters\<close>

text \<open>
  A Python \<open>str\<close> is modelled as a HOL \<open>string\<close>; a \<open>char\<close> stands for the code point
  of the same number (U+0000 to U+00FF). The character classes below are the ones
  Python's \<open>re\<close> module (\<open>\s\<close>, \<open>\w\<close> on \<open>str\<close> patterns) and \<open>str.lower\<close>,
  \<open>str.strip\<close> use on that range. Strings are ordered lexicographically by code point,
  as Python compares them.
\<close>

definition code :: "char \<Rightarrow> nat" where
  "code c = of_char c"

definition is_space :: "char \<Rightarrow> bool" where
  "is_space c = (let n = code c in
     (9 \<le> n \<and> n \<le> 13) \<or> (28 \<le> n \<and> n \<le> 32) \<or> n = 133 \<or> n = 160)"

definition is_alnum :: "char \<Rightarrow> bool" where
  "is_alnum c = (let n = code c in
     (48 \<le> n \<and> n \<le> 57) \<or> (65 \<le> n \<and> n \<le> 90) \<or> (97 \<le> n \<and> n \<le> 122) \<or>
     n = 170 \<or> n = 178 \<or> n = 179 \<or> n = 181 \<or> n = 185 \<or> n = 186 \<or>
     (188 \<le> n \<and> n \<le> 190) \<or> (192 \<le> n \<and> n \<le> 214) \<or> (216 \<le> n \<and> n \<le> 246) \<or>
     248 \<le> n)"

definition is_word :: "char \<Rightarrow> bool" where
  "is_word c = (is_alnum c \<or> c = CHR ''_'')"

definition lower_char :: "char \<Rightarrow> char" where
  "lower_char c = (let n = code c in
     if (65 \<le> n \<and> n \<le> 90) \<or> (192 \<le> n \<and> n \<le> 214) \<or> (216 \<le> n \<and> n \<le> 222)
     then char_of (n + 32) else c)"

definition lower :: "string \<Rightarrow> string" where
  "lower s = map lower_char s"

definition strip :: "string \<Rightarrow> string" where
  "strip s = rev (dropWhile is_space (rev (dropWhile is_space s)))"

definition endswith :: "string \<Rightarrow> string \<Rightarrow> bool" where
  "endswith s suffix = (length suffix \<le> length s \<and> drop (length s - length suffix) s = suffix)"

text \<open>\<open>str(n)\<close> for a non-negative integer: its decimal digits.\<close>

definition digit_char :: "nat \<Rightarrow> char" where
  "digit_char d = char_of (48 + d)"

fun str_nat :: "nat \<Rightarrow> string" where
  "str_nat n = (if n < 10 then [digit_char n] else str_nat (n div 10) @ [digit_char (n mod 10)])"

declare str_nat.simps [simp del]

text \<open>The inverse reading of a digit string, used to show that \<open>str_nat\<close> is injective.\<close>

definition digit_val :: "char \<Rightarrow> nat" where
  "digit_val c = code c - 48"

definition read_nat :: "string \<Rightarrow> nat" where
  "read_nat s = foldl (\<lambda>acc c. 10 * acc + digit_val c) 0 s"

section \<open>Paths (\<open>posixpath\<close>)\<close>

definition sep :: char where
  "sep = CHR ''/''"

definition extsep :: char where
  "extsep = CHR ''.''"

text \<open>\<open>os.path.join(a, b)\<close>.\<close>

definition path_join :: "string \<Rightarrow> string \<Rightarrow> string" where
  "path_join a b =
     (if take 1 b = [sep] then b
      else if a = [] \<or> last a = sep then a @ b
      else a @ [sep] @ b)"

text \<open>\<open>os.path.split(p)\<close>: the head up to the last separator (trailing separators
  stripped unless the head is separators only) and the tail after it.\<close>

definition path_split :: "string \<Rightarrow> string \<times> string" where
  "path_split p =
     (let head = rev (dropWhile (\<lambda>c. c \<noteq> sep) (rev p));
          tail = rev (takeWhile (\<lambda>c. c \<noteq> sep) (rev p))
      in (if head \<noteq> [] \<and> list_ex (\<lambda>c. c \<noteq> sep) head
          then rev (dropWhile (\<lambda>c. c = sep) (rev head)) else head, tail))"

definition basename :: "string \<Rightarrow> string" where
  "basename p = snd (path_split p)"

definition dirname :: "string \<Rightarrow> string" where
  "dirname p = fst (path_split p)"

text \<open>\<open>os.path.splitext(p)\<close>: the extension starts at the last dot of the last path
  component, unless only dots precede it there.\<close>

definition splitext :: "string \<Rightarrow> string \<times> string" where
  "splitext p =
     (let head = rev (dropWhile (\<lambda>c. c \<noteq> sep) (rev p));
          tail = rev (takeWhile (\<lambda>c. c \<noteq> sep) (rev p))
      in if extsep \<in> set tail
         then (let stem = rev (tl (dropWhile (\<lambda>c. c \<noteq> extsep) (rev tail)));
                   ext = extsep # rev (takeWhile (\<lambda>c. c \<noteq> extsep) (rev tail))
               in if list_ex (\<lambda>c. c \<noteq> extsep) stem then (head @ stem, ext) else (p, []))
         else (p, []))"

section \<open>The file system\<close>

text \<open>
  The file system is the list of paths of its regular files and the list of paths of its
  directories, each in the order in which the operating system enumerates them
  (\<open>os.listdir\<close> promises no order). A path is identified with its string: \<open>.\<close>,
  \<open>..\<close>, repeated separators and links are not resolved.
\<close>

record filesys =
  files :: "string list"
  dirs :: "string list"

definition path_exists :: "filesys \<Rightarrow> string \<Rightarrow> bool" where
  "path_exists fs p = (p \<in> set (files fs) \<or> p \<in> set (dirs fs))"

definition isdir :: "filesys \<Rightarrow> string \<Rightarrow> bool" where
  "isdir fs p = (p \<in> set (dirs fs))"

section \<open>NameNormalizer: \<open>normalize_name\<close>\<close>

text \<open>\<open>re.sub(r'\s+', ' ', s)\<close>: every maximal run of whitespace becomes one space.\<close>

function collapse_ws :: "string \<Rightarrow> string" where
  "collapse_ws [] = []"
| "collapse_ws (c # cs) =
     (if is_space c then CHR '' '' # collapse_ws (dropWhile is_space cs)
      else c # collapse_ws cs)"
  by pat_completeness auto
termination
  by (relation "measure length") (auto simp: le_imp_less_Suc length_dropWhile_le)

definition normalize_name :: "string \<Rightarrow> string" where
  "normalize_name name =
     (let clean = filter (\<lambda>c. is_word c \<or> is_space c) name;
          clean = lower clean;
          clean = strip (collapse_ws clean)
      in clean)"

section \<open>FileStore: \<open>unique_dest\<close>\<close>

text \<open>
  The loop of \<open>unique_dest\<close>: while the candidate exists in the directory, the next
  candidate is \<open>base_counter ext\<close>. The file system is finite and the candidates are
  pairwise different, so the loop ends; the measure counts the candidates still to come
  that exist, plus one when the current one exists.
\<close>

definition numbered :: "string \<Rightarrow> string \<Rightarrow> nat \<Rightarrow> string" where
  "numbered base ext counter = base @ ''_'' @ str_nat counter @ ext"

definition taken_from :: "filesys \<Rightarrow> string \<Rightarrow> string \<Rightarrow> string \<Rightarrow> nat \<Rightarrow> nat set" where
  "taken_from fs directory base ext counter =
     {j. counter \<le> j \<and> path_exists fs (path_join directory (numbered base ext j))}"

definition loop_measure ::
  "filesys \<times> string \<times> string \<times> string \<times> string \<times> nat \<Rightarrow> nat" where
  "loop_measure = (\<lambda>(fs, directory, base, ext, candidate, counter).
     (if path_exists fs (path_join directory candidate) then 1 else 0) +
     card (taken_from fs directory base ext counter))"

lemma read_nat_snoc: "read_nat (s @ [c]) = 10 * read_nat s + digit_val c"
  by (simp add: read_nat_def)

lemma digit_val_digit_char: "d < 10 \<Longrightarrow> digit_val (digit_char d) = d"
  by (simp add: digit_val_def digit_char_def code_def)

lemma read_nat_str_nat: "read_nat (str_nat n) = n"
proof (induction n rule: str_nat.induct)
  case (1 n)
  show ?case
  proof (cases "n < 10")
    case True
    then show ?thesis
      by (simp add: str_nat.simps [of n] read_nat_def digit_val_digit_char)
  next
    case False
    then have "read_nat (str_nat n) = 10 * (n div 10) + n mod 10"
      using "1.IH" by (simp add: str_nat.simps [of n] read_nat_snoc digit_val_digit_char)
    then show ?thesis by simp
  qed
qed

lemma str_nat_inj: "str_nat m = str_nat n \<Longrightarrow> m = n"
  by (metis read_nat_str_nat)

lemma path_join_numbered:
  "path_join directory (numbered base ext j) =
     path_join directory (base @ ''_'') @ str_nat j @ ext"
  by (cases base) (simp_all add: path_join_def numbered_def)

lemma numbered_path_inj:
  "path_join directory (numbered base ext j) = path_join directory (numbered base ext k)
     \<Longrightarrow> j = k"
  by (simp add: path_join_numbered str_nat_inj)

lemma finite_taken_from: "finite (taken_from fs directory base ext counter)"
proof -
  let ?f = "\<lambda>j. path_join directory (numbered base ext j)"
  have "inj ?f"
    by (rule injI) (rule numbered_path_inj)
  then have "finite (?f -` (set (files fs) \<union> set (dirs fs)))"
    by (intro finite_vimageI) simp_all
  moreover have "taken_from fs directory base ext counter
      \<subseteq> ?f -` (set (files fs) \<union> set (dirs fs))"
    by (auto simp: taken_from_def path_exists_def)
  ultimately show ?thesis
    by (rule rev_finite_subset)
qed

lemma taken_from_step:
  "taken_from fs directory base ext counter =
     (if path_exists fs (path_join directory (numbered base ext counter))
      then insert counter (taken_from fs directory base ext (Suc counter))
      else taken_from fs directory base ext (Suc counter))"
  by (auto simp: taken_from_def Suc_le_eq order_le_less)

lemma card_taken_from_step:
  "card (taken_from fs directory base ext counter) =
     (if path_exists fs (path_join directory (numbered base ext counter)) then 1 else 0) +
     card (taken_from fs directory base ext (Suc counter))"
proof -
  have "counter \<notin> taken_from fs directory base ext (Suc counter)"
    by (simp add: taken_from_def)
  then show ?thesis
    by (subst taken_from_step) (simp add: finite_taken_from)
qed

function unique_loop ::
  "filesys \<Rightarrow> string \<Rightarrow> string \<Rightarrow> string \<Rightarrow> string \<Rightarrow> nat \<Rightarrow> string" where
  "unique_loop fs directory base ext candidate counter =
     (if path_exists fs (path_join directory candidate)
      then unique_loop fs directory base ext (numbered base ext counter) (counter + 1)
      else candidate)"
  by pat_completeness auto
termination
proof (relation "measure loop_measure")
  show "wf (measure loop_measure)"
    by simp
next
  fix fs :: filesys and directory base ext candidate :: string and counter :: nat
  assume "path_exists fs (path_join directory candidate)"
  then show "((fs, directory, base, ext, numbered base ext counter, counter + 1),
              (fs, directory, base, ext, candidate, counter)) \<in> measure loop_measure"
    by (simp add: loop_measure_def card_taken_from_step [of fs directory base ext counter])
qed

declare unique_loop.simps [simp del]

definition unique_dest :: "filesys \<Rightarrow> string \<Rightarrow> string \<Rightarrow> string" where
  "unique_dest fs directory name =
     (let (base, ext) = splitext name;
          candidate = name;
          counter = 1
      in unique_loop fs directory base ext candidate counter)"


section \<open>File system operations\<close>

text \<open>
  \<open>os.makedirs(name, exist_ok=True)\<close> creates \<open>name\<close> and every missing ancestor; it
  raises (here: \<open>None\<close>) on the empty path and when a regular file stands at \<open>name\<close>
  or at one of its ancestors.
\<close>

primrec ancestors :: "nat \<Rightarrow> string \<Rightarrow> string list" where
  "ancestors 0 p = []"
| "ancestors (Suc n) p =
     (let head = dirname p in
      if head = [] \<or> head = p then [] else head # ancestors n head)"

definition dir_chain :: "string \<Rightarrow> string list" where
  "dir_chain name = name # ancestors (length name) name"

definition makedirs :: "filesys \<Rightarrow> string \<Rightarrow> filesys option" where
  "makedirs fs name =
     (let chain = dir_chain name in
      if name = [] \<or> list_ex (\<lambda>p. p \<in> set (files fs)) chain then None
      else Some (fs\<lparr>dirs := dirs fs @ filter (\<lambda>p. p \<notin> set (dirs fs)) (remdups chain)\<rparr>))"

text \<open>
  \<open>shutil.move(src, dst)\<close>: raises when \<open>src\<close> does not exist, and when \<open>src\<close> is a
  directory and \<open>dst\<close> lies below it (a directory cannot be moved into itself); an
  existing directory \<open>dst\<close> receives \<open>src\<close> under its own name, unless that name is
  taken there. A directory moves with everything below it. The parent of the target is
  taken to exist (both callers create it first).
\<close>

definition rename_path :: "string \<Rightarrow> string \<Rightarrow> string \<Rightarrow> string" where
  "rename_path src dst p =
     (if p = src then dst
      else if take (length src + 1) p = src @ [sep] then dst @ drop (length src) p
      else p)"

definition fs_move :: "filesys \<Rightarrow> string \<Rightarrow> string \<Rightarrow> filesys option" where
  "fs_move fs src dst =
     (if \<not> path_exists fs src then None
      else if isdir fs src \<and> src \<in> set (dir_chain (dirname dst)) then None
      else let real_dst = (if isdir fs dst then path_join dst (basename src) else dst) in
        if isdir fs dst \<and> path_exists fs real_dst then None
        else Some \<lparr>files = map (rename_path src real_dst) (removeAll real_dst (files fs)),
                   dirs = map (rename_path src real_dst) (dirs fs)\<rparr>)"

text \<open>\<open>os.remove(p)\<close> deletes a regular file and raises otherwise.\<close>

definition fs_remove :: "filesys \<Rightarrow> string \<Rightarrow> filesys option" where
  "fs_remove fs p =
     (if p \<in> set (files fs) then Some (fs\<lparr>files := removeAll p (files fs)\<rparr>) else None)"

text \<open>\<open>os.listdir(d)\<close>: the names directly below \<open>d\<close>, each once; it raises (\<open>None\<close>)
  when \<open>d\<close> is not a directory.\<close>

definition listdir :: "filesys \<Rightarrow> string \<Rightarrow> string list option" where
  "listdir fs d =
     (if isdir fs d
      then Some (remdups (map basename
             (filter (\<lambda>p. basename p \<noteq> [] \<and> path_join d (basename p) = p)
                (files fs @ dirs fs))))
      else None)"

text \<open>
  \<open>glob.glob(os.path.join(d, '*.pdf'))\<close>. The pattern is split into its directory and
  \<open>*.pdf\<close>; the names of the directory are listed (nothing when it cannot be listed);
  names starting with a dot are skipped, because the pattern does not start with one;
  \<open>fnmatch\<close> keeps the names ending in \<open>.pdf\<close>, comparing case as it is
  (\<open>posixpath.normcase\<close> is the identity). The directory part is taken literally:
  \<open>glob\<close> would first expand \<open>*\<close>, \<open>?\<close> and \<open>[\<close> in it, which is not
  modelled; of the listing of such a folder the results below use only that it names no
  path twice.
\<close>

definition ishidden :: "string \<Rightarrow> bool" where
  "ishidden name = (take 1 name = ''.'')"

definition glob_pdf :: "filesys \<Rightarrow> string \<Rightarrow> string list" where
  "glob_pdf fs d =
     (let (dirname, pattern) = path_split (path_join d ''*.pdf'');
          names = (case listdir fs dirname of None \<Rightarrow> [] | Some ns \<Rightarrow> ns);
          names = filter (\<lambda>x. \<not> ishidden x) names;
          names = filter (\<lambda>x. endswith x ''.pdf'') names
      in map (path_join dirname) names)"

section \<open>Data model\<close>

datatype kind = Reject | Hold

text \<open>An entry of \<open>undo_stack\<close>: the dictionary built by \<open>move_current\<close> and \<open>hold\<close>
  (\<open>reason\<close> is present for a rejection only).\<close>

record operation =
  src :: string
  dest :: string
  kind :: kind
  reason :: "string option"
  filename :: string
  position :: int

text \<open>The configuration, as far as the organizer reads it. \<open>reason_map\<close> keeps the
  order of the dictionary, which \<open>export_csv\<close> iterates.\<close>

record config =
  reason_map :: "(string \<times> string) list"
  hold_folder :: string
  email_map :: "string \<rightharpoonup> string"
  max_undo :: int

text \<open>The session state file: a JSON object whose keys may be missing.\<close>

record snapshot =
  snap_base_folder :: "string option"
  snap_cv_list :: "string list option"
  snap_current_index :: "int option"
  snap_undo_stack :: "operation list option"
  snap_cand_email_map :: "(string \<rightharpoonup> string) option"

text \<open>The fields of \<open>MainWindow\<close> the organizer works on, the file system (\<open>disk\<close>), and the
  content of the session state file (\<open>None\<close>: no file).\<close>

record state =
  cv_list :: "string list"
  current_index :: int
  undo_stack :: "operation list"
  base_folder :: string
  cand_email_map :: "string \<rightharpoonup> string"
  config :: config
  disk :: filesys
  state_file :: "snapshot option"

text \<open>What an operation tells the user: \<open>Done\<close> when it ran to its end, \<open>Silent\<close> for a
  return without a message, otherwise the dialog it shows.\<close>

datatype report =
  Done | Silent
  | InvalidReason | FileMissing | MoveFailed | HoldFailed
  | NothingToUndo | OriginalMissing | Declined | RemoveFailed | UndoFailed
  | OpenFolderFirst | InvalidFormat | ImportError

record row =
  Filename :: string
  ReasonKey :: string
  ReasonText :: string
  Email :: string

datatype export_result = NoFolder | NoRejected | Cancelled | Written string "row list"

subsection \<open>Python list operations\<close>

text \<open>\<open>xs.pop(i)\<close> and \<open>xs.insert(i, x)\<close> for an integer \<open>i\<close>; \<open>pop\<close> is only called
  with an index in range, \<open>insert\<close> clamps and counts a negative index from the end.\<close>

definition list_pop :: "int \<Rightarrow> 'a list \<Rightarrow> 'a list" where
  "list_pop i xs = take (nat i) xs @ drop (nat i + 1) xs"

definition list_insert :: "int \<Rightarrow> 'a \<Rightarrow> 'a list \<Rightarrow> 'a list" where
  "list_insert i x xs =
     (let n = int (length xs);
          j = (if i < 0 then max 0 (i + n) else min i n)
      in take (nat j) xs @ x # drop (nat j) xs)"

section \<open>SessionState\<close>

definition save_session_state :: "state \<Rightarrow> state" where
  "save_session_state s =
     (if base_folder s = [] then s
      else s\<lparr>state_file := Some
             \<lparr>snap_base_folder = Some (base_folder s),
              snap_cv_list = Some (cv_list s),
              snap_current_index = Some (current_index s),
              snap_undo_stack = Some (undo_stack s),
              snap_cand_email_map = Some (cand_email_map s)\<rparr>\<rparr>)"

definition load_session_state :: "state \<Rightarrow> state" where
  "load_session_state s =
     (case state_file s of
        None \<Rightarrow> s
      | Some st \<Rightarrow>
          let s = s\<lparr>base_folder := (case snap_base_folder st of None \<Rightarrow> [] | Some b \<Rightarrow> b),
                    cv_list := (case snap_cv_list st of None \<Rightarrow> [] | Some l \<Rightarrow> l),
                    current_index := (case snap_current_index st of None \<Rightarrow> - 1 | Some i \<Rightarrow> i),
                    undo_stack := (case snap_undo_stack st of None \<Rightarrow> [] | Some u \<Rightarrow> u),
                    cand_email_map :=
                      (case snap_cand_email_map st of None \<Rightarrow> Map.empty | Some m \<Rightarrow> m)\<rparr>
          in if current_index s \<ge> int (length (cv_list s))
             then s\<lparr>current_index :=
                      (if cv_list s \<noteq> [] then max 0 (int (length (cv_list s)) - 1) else - 1)\<rparr>
             else s)"

section \<open>Organizer\<close>

definition open_folder :: "string \<Rightarrow> state \<Rightarrow> state" where
  "open_folder d s =
     (if d = [] then s
      else let s = s\<lparr>base_folder := d\<rparr>;
               s = s\<lparr>cv_list := sort (glob_pdf (disk s) d)\<rparr>;
               s = s\<lparr>current_index := (if cv_list s \<noteq> [] then 0 else - 1)\<rparr>;
               s = s\<lparr>undo_stack := []\<rparr>
           in save_session_state s)"

definition move_current :: "string \<Rightarrow> state \<Rightarrow> report \<times> state" where
  "move_current reason_key s =
     (if cv_list s = [] \<or> current_index s < 0 \<or> current_index s \<ge> int (length (cv_list s))
      then (Silent, s)
      else case map_of (reason_map (config s)) reason_key of
        None \<Rightarrow> (InvalidReason, s)
      | Some folder \<Rightarrow>
          let src = cv_list s ! nat (current_index s) in
          if \<not> path_exists (disk s) src then (FileMissing, s)
          else
            let dest_dir = path_join (path_join (base_folder s) ''Rejected'') folder in
            (case makedirs (disk s) dest_dir of
              None \<Rightarrow> (MoveFailed, s)
            | Some fs1 \<Rightarrow>
                let name = basename src;
                    unique_name = unique_dest fs1 dest_dir name;
                    dest = path_join dest_dir unique_name
                in (case fs_move fs1 src dest of
                  None \<Rightarrow> (MoveFailed, s\<lparr>disk := fs1\<rparr>)
                | Some fs2 \<Rightarrow>
                    let operation = \<lparr>src = src, dest = dest, kind = Reject,
                                     reason = Some reason_key, filename = name,
                                     position = current_index s\<rparr>;
                        s = s\<lparr>disk := fs2, undo_stack := undo_stack s @ [operation]\<rparr>;
                        s = (if int (length (undo_stack s)) > max_undo (config s)
                             then s\<lparr>undo_stack := tl (undo_stack s)\<rparr> else s);
                        s = s\<lparr>cv_list := list_pop (current_index s) (cv_list s)\<rparr>;
                        s = (if cv_list s = [] then s\<lparr>current_index := - 1\<rparr>
                             else if current_index s \<ge> int (length (cv_list s))
                             then s\<lparr>current_index := int (length (cv_list s)) - 1\<rparr>
                             else s)
                    in (Done, save_session_state s))))"

definition hold :: "state \<Rightarrow> report \<times> state" where
  "hold s =
     (if cv_list s = [] \<or> current_index s < 0 \<or> current_index s \<ge> int (length (cv_list s))
      then (Silent, s)
      else
        let src = cv_list s ! nat (current_index s) in
        if \<not> path_exists (disk s) src then (FileMissing, s)
        else
          let hold_dir = path_join (base_folder s) (hold_folder (config s)) in
          (case makedirs (disk s) hold_dir of
            None \<Rightarrow> (HoldFailed, s)
          | Some fs1 \<Rightarrow>
              let name = basename src;
                  unique_name = unique_dest fs1 hold_dir name;
                  dest = path_join hold_dir unique_name
              in (case fs_move fs1 src dest of
                None \<Rightarrow> (HoldFailed, s\<lparr>disk := fs1\<rparr>)
              | Some fs2 \<Rightarrow>
                  let operation = \<lparr>src = src, dest = dest, kind = Hold,
                                   reason = None, filename = name,
                                   position = current_index s\<rparr>;
                      s = s\<lparr>disk := fs2, undo_stack := undo_stack s @ [operation]\<rparr>;
                      s = (if int (length (undo_stack s)) > max_undo (config s)
                           then s\<lparr>undo_stack := tl (undo_stack s)\<rparr> else s);
                      s = s\<lparr>cv_list := list_pop (current_index s) (cv_list s)\<rparr>;
                      s = (if cv_list s = [] then s\<lparr>current_index := - 1\<rparr>
                           else if current_index s \<ge> int (length (cv_list s))
                           then s\<lparr>current_index := int (length (cv_list s)) - 1\<rparr>
                           else s)
                  in (Done, save_session_state s))))"

text \<open>\<open>undo\<close>; \<open>overwrite\<close> is the user's answer when the dialog asks whether the file
  standing at the original path may be overwritten.\<close>

definition undo :: "bool \<Rightarrow> state \<Rightarrow> report \<times> state" where
  "undo overwrite s =
     (if undo_stack s = [] then (NothingToUndo, s)
      else
        let operation = last (undo_stack s);
            s = s\<lparr>undo_stack := butlast (undo_stack s)\<rparr>;
            src = src operation;
            dest = dest operation
        in case makedirs (disk s) (dirname src) of
          None \<Rightarrow> (UndoFailed, s)
        | Some fs1 \<Rightarrow>
            let s = s\<lparr>disk := fs1\<rparr> in
            if \<not> path_exists (disk s) dest then (OriginalMissing, s)
            else
              (case (if path_exists (disk s) src
                     then (if \<not> overwrite then Inl Declined
                           else (case fs_remove (disk s) src of
                             None \<Rightarrow> Inl RemoveFailed
                           | Some fs2 \<Rightarrow> Inr fs2))
                     else Inr (disk s)) of
                Inl r \<Rightarrow> (r, s)
              | Inr fs2 \<Rightarrow>
                  (case fs_move fs2 dest src of
                     None \<Rightarrow> (UndoFailed, s\<lparr>disk := fs2\<rparr>)
                   | Some fs3 \<Rightarrow>
                       let s = s\<lparr>disk := fs3\<rparr>;
                           insert_index = position operation;
                           insert_index =
                             (if insert_index > int (length (cv_list s))
                              then int (length (cv_list s)) else insert_index);
                           s = s\<lparr>cv_list := list_insert insert_index src (cv_list s)\<rparr>;
                           s = s\<lparr>current_index := insert_index\<rparr>
                       in (Done, save_session_state s))))"

subsection \<open>EmailDirectory\<close>

text \<open>
  \<open>import_emails\<close> on a parsed CSV file: the header's field names and, for each row, the
  values under \<open>name\<close> and \<open>email\<close> (\<open>None\<close> where the row is too short to have one, on
  which \<open>re.sub\<close> or \<open>.strip()\<close> raises and the import stops where it is).
\<close>

fun import_rows ::
  "(string option \<times> string option) list \<Rightarrow> state \<Rightarrow> bool \<times> state" where
  "import_rows [] s = (True, s)"
| "import_rows ((Some name, Some email) # rows) s =
     (let name_key = normalize_name name;
          email = strip email
      in if name_key \<noteq> [] \<and> email \<noteq> []
         then import_rows rows
                (s\<lparr>cand_email_map := (cand_email_map s)(name_key \<mapsto> email),
                   config := (config s)\<lparr>email_map := (email_map (config s))(name_key \<mapsto> email)\<rparr>\<rparr>)
         else import_rows rows s)"
| "import_rows (_ # rows) s = (False, s)"

definition import_emails ::
  "string list \<Rightarrow> (string option \<times> string option) list \<Rightarrow> state \<Rightarrow> report \<times> state" where
  "import_emails fieldnames rows s =
     (if base_folder s = [] then (OpenFolderFirst, s)
      else if ''name'' \<notin> set fieldnames \<or> ''email'' \<notin> set fieldnames then (InvalidFormat, s)
      else case import_rows rows s of
        (True, s') \<Rightarrow> (Done, save_session_state s')
      | (False, s') \<Rightarrow> (ImportError, s'))"

text \<open>\<open>d.get(k) or ...\<close>: a missing key and an empty string both fall through.\<close>

definition get_or :: "(string \<rightharpoonup> string) \<Rightarrow> string \<Rightarrow> string \<Rightarrow> string" where
  "get_or m k other = (case m k of None \<Rightarrow> other | Some v \<Rightarrow> if v = [] then other else v)"

definition folder_rows :: "state \<Rightarrow> string \<Rightarrow> string \<times> string \<Rightarrow> row list" where
  "folder_rows s rejected_dir = (\<lambda>(key, folder).
     let path = path_join rejected_dir folder in
     case listdir (disk s) path of
       None \<Rightarrow> []
     | Some names \<Rightarrow>
         map (\<lambda>fname.
               let base_name = fst (splitext fname);
                   email = get_or (cand_email_map s) base_name
                             (get_or (email_map (config s)) base_name [])
               in \<lparr>Filename = fname, ReasonKey = key, ReasonText = folder, Email = email\<rparr>)
           (filter (\<lambda>fname. endswith (lower fname) ''.pdf'') names))"

text \<open>\<open>export_csv\<close>; \<open>out_path\<close> is the path chosen in the save dialog (empty when the
  dialog is cancelled). The result names the file written and its rows.\<close>

definition export_csv :: "string \<Rightarrow> state \<Rightarrow> export_result" where
  "export_csv out_path s =
     (if base_folder s = [] then NoFolder
      else
        let rejected_dir = path_join (base_folder s) ''Rejected'' in
        if \<not> path_exists (disk s) rejected_dir then NoRejected
        else
          let rows = concat (map (folder_rows s rejected_dir) (reason_map (config s))) in
          if rows = [] then NoRejected
          else if out_path = [] then Cancelled
          else Written (if endswith (lower out_path) ''.csv'' then out_path
                        else out_path @ ''.csv'') rows)"

text \<open>The names \<open>export_csv\<close> finds for a base folder: for each reason folder in turn,
  the entries of \<open>Rejected/<folder>\<close> whose lower-cased name ends in \<open>.pdf\<close>.\<close>

definition rejected_pdfs :: "filesys \<Rightarrow> (string \<times> string) list \<Rightarrow> string \<Rightarrow> string list" where
  "rejected_pdfs fs reasons base =
     concat (map (\<lambda>(key, folder).
        case listdir fs (path_join (path_join base ''Rejected'') folder) of
          None \<Rightarrow> []
        | Some names \<Rightarrow> filter (\<lambda>fname. endswith (lower fname) ''.pdf'') names) reasons)"

section \<open>Runs of operations\<close>

text \<open>The two operations that take the current CV out of the queue.\<close>

datatype action = MoveCurrent string | HoldCurrent

fun perform :: "action \<Rightarrow> state \<Rightarrow> report \<times> state" where
  "perform (MoveCurrent reason_key) s = move_current reason_key s"
| "perform HoldCurrent s = hold s"

text \<open>A run of operations in which every one succeeds (\<open>None\<close> as soon as one does
  not), and the same for a run of \<open>undo\<close>, one answer to the overwrite question each.\<close>

fun run_actions :: "action list \<Rightarrow> state \<Rightarrow> state option" where
  "run_actions [] s = Some s"
| "run_actions (a # as) s =
     (let (r, s') = perform a s in if r = Done then run_actions as s' else None)"

fun run_undos :: "bool list \<Rightarrow> state \<Rightarrow> state option" where
  "run_undos [] s = Some s"
| "run_undos (overwrite # rest) s =
     (let (r, s') = undo overwrite s in if r = Done then run_undos rest s' else None)"

text \<open>The operations a successful run records, oldest first: each is the entry that
  stands last in the ledger when its operation returns.\<close>

fun pushed :: "action list \<Rightarrow> state \<Rightarrow> operation list" where
  "pushed [] s = []"
| "pushed (a # as) s =
     (let (r, s') = perform a s in
      if r = Done then last (undo_stack s') # pushed as s' else [])"

text \<open>The state a successful \<open>move_current\<close> or \<open>hold\<close> leaves, given the operation it
  recorded and the file system after the move: the common tail of the two functions.\<close>

definition push_op :: "int \<Rightarrow> operation \<Rightarrow> operation list \<Rightarrow> operation list" where
  "push_op m operation stack =
     (if int (length (stack @ [operation])) > m then tl (stack @ [operation])
      else stack @ [operation])"

definition clamp_index :: "int \<Rightarrow> 'a list \<Rightarrow> int" where
  "clamp_index i xs =
     (if xs = [] then - 1 else if i \<ge> int (length xs) then int (length xs) - 1 else i)"

definition commit :: "state \<Rightarrow> operation \<Rightarrow> filesys \<Rightarrow> state" where
  "commit s operation fs' =
     save_session_state
       (s\<lparr>disk := fs',
          undo_stack := push_op (max_undo (config s)) operation (undo_stack s),
          cv_list := list_pop (current_index s) (cv_list s),
          current_index := clamp_index (current_index s)
                             (list_pop (current_index s) (cv_list s))\<rparr>)"

section \<open>Invariants\<close>

text \<open>The CvQueue invariant: no path twice, and the cursor is \<open>-1\<close> on an empty queue
  and an index of the queue otherwise.\<close>

definition queue_inv :: "string list \<Rightarrow> int \<Rightarrow> bool" where
  "queue_inv q i =
     (distinct q \<and> (if q = [] then i = - 1 else 0 \<le> i \<and> i < int (length q)))"

text \<open>What the ledger adds: its entries stand for different files, none of them in the
  queue, each with a position that is not negative.\<close>

definition ledger_inv :: "string list \<Rightarrow> operation list \<Rightarrow> bool" where
  "ledger_inv q stack =
     (distinct (map src stack) \<and> list_all (\<lambda>operation. src operation \<notin> set q) stack \<and>
      list_all (\<lambda>operation. 0 \<le> position operation) stack)"

definition session_inv :: "state \<Rightarrow> bool" where
  "session_inv s =
     (queue_inv (cv_list s) (current_index s) \<and> ledger_inv (cv_list s) (undo_stack s))"

text \<open>The queue, cursor and ledger a snapshot restores (the defaults of
  \<open>load_session_state\<close> for missing keys).\<close>

definition snap_queue :: "snapshot \<Rightarrow> string list" where
  "snap_queue st = (case snap_cv_list st of None \<Rightarrow> [] | Some l \<Rightarrow> l)"

definition snap_cursor :: "snapshot \<Rightarrow> int" where
  "snap_cursor st = (case snap_current_index st of None \<Rightarrow> - 1 | Some i \<Rightarrow> i)"

definition snap_ledger :: "snapshot \<Rightarrow> operation list" where
  "snap_ledger st = (case snap_undo_stack st of None \<Rightarrow> [] | Some u \<Rightarrow> u)"

definition snapshot_inv :: "snapshot option \<Rightarrow> bool" where
  "snapshot_inv file =
     (case file of
        None \<Rightarrow> True
      | Some st \<Rightarrow> queue_inv (snap_queue st) (snap_cursor st) \<and>
                   ledger_inv (snap_queue st) (snap_ledger st))"

text \<open>
  The states of a session. It starts with the fields as \<open>__init__\<close> sets them, any
  configuration and file system, and a session state file that is absent or holds a
  snapshot satisfying the invariants, and loads that file. Then the user opens folders,
  moves, holds, undoes and imports in any order; the timer saves the state; and the files
  on disk and the session state file may change behind the application at any time.
\<close>

inductive reachable :: "state \<Rightarrow> bool" where
  startup: "cv_list s = [] \<Longrightarrow> current_index s = - 1 \<Longrightarrow> undo_stack s = [] \<Longrightarrow>
            base_folder s = [] \<Longrightarrow> snapshot_inv (state_file s) \<Longrightarrow>
            reachable (load_session_state s)"
| open_folder: "reachable s \<Longrightarrow> reachable (open_folder d s)"
| move_current: "reachable s \<Longrightarrow> reachable (snd (move_current reason_key s))"
| hold: "reachable s \<Longrightarrow> reachable (snd (hold s))"
| undo: "reachable s \<Longrightarrow> reachable (snd (undo overwrite s))"
| import_emails: "reachable s \<Longrightarrow> reachable (snd (import_emails fieldnames rows s))"
| timer: "reachable s \<Longrightarrow> reachable (save_session_state s)"
| outside: "reachable s \<Longrightarrow> reachable (s\<lparr>disk := fs', state_file := file\<rparr>)"

section \<open>Example data\<close>

text \<open>A directory in which \<open>a.pdf\<close> and \<open>a_1.pdf\<close> are taken, and the same directory
  after one more file has been created.\<close>

definition fsA :: filesys where
  "fsA = \<lparr>files = [''/d/a.pdf'', ''/d/a_1.pdf''], dirs = [''/d'']\<rparr>"

definition fsB :: filesys where
  "fsB = \<lparr>files = [''/d/a.pdf'', ''/d/a_1.pdf'', ''/d/b.pdf''], dirs = [''/d'']\<rparr>"

text \<open>A session on a folder with two CVs, with the default configuration: the state
  before and after the folder is opened; and the same with room for one undo only.\<close>

definition ex_config :: config where
  "ex_config = \<lparr>reason_map = [(''1'', ''UnsatisfactoryEducation''),
       (''2'', ''UnsatisfactoryExperience''), (''3'', ''Other'')],
     hold_folder = ''HoldForReview'', email_map = Map.empty, max_undo = 100\<rparr>"

definition ex_disk :: filesys where
  "ex_disk = \<lparr>files = [''/cv/b.pdf'', ''/cv/a.pdf''], dirs = [''/cv'', ''/'']\<rparr>"

definition ex_init :: state where
  "ex_init = \<lparr>cv_list = [], current_index = - 1, undo_stack = [], base_folder = [],
     cand_email_map = Map.empty, config = ex_config, disk = ex_disk, state_file = None\<rparr>"

definition ex_open :: state where
  "ex_open = open_folder ''/cv'' ex_init"


definition ex_small :: state where
  "ex_small = open_folder ''/cv'' (ex_init\<lparr>config := ex_config\<lparr>max_undo := 1\<rparr>\<rparr>)"

text \<open>The ledger entries of rejecting \<open>a.pdf\<close> and then holding \<open>b.pdf\<close>.\<close>

definition ex_op_a :: operation where
  "ex_op_a = \<lparr>src = ''/cv/a.pdf'', dest = ''/cv/Rejected/UnsatisfactoryEducation/a.pdf'',
     kind = Reject, reason = Some ''1'', filename = ''a.pdf'', position = 0\<rparr>"

definition ex_op_b :: operation where
  "ex_op_b = \<lparr>src = ''/cv/b.pdf'', dest = ''/cv/HoldForReview/b.pdf'',
     kind = Hold, reason = None, filename = ''b.pdf'', position = 0\<rparr>"

text \<open>The session after \<open>a.pdf\<close> was rejected and \<open>b.pdf\<close> held, and the same after
  the held file has been deleted behind the application.\<close>

definition ex_two :: state where
  "ex_two = snd (hold (snd (move_current ''1'' ex_open)))"

definition ex_lost :: state where
  "ex_lost = ex_two\<lparr>disk := (disk ex_two)\<lparr>files :=
     removeAll ''/cv/HoldForReview/b.pdf'' (files (disk ex_two))\<rparr>\<rparr>"

text \<open>A startup with a session state file that lists one path twice.\<close>

definition ex_stale :: state where
  "ex_stale = ex_init\<lparr>state_file := Some
     \<lparr>snap_base_folder = Some ''/cv'',
      snap_cv_list = Some [''/cv/a.pdf'', ''/cv/a.pdf''],
      snap_current_index = Some 0,
      snap_undo_stack = Some [],
      snap_cand_email_map = None\<rparr>\<rparr>"

text \<open>A folder that was triaged in an earlier session: one CV left, one rejected.\<close>

definition ex_triaged :: state where
  "ex_triaged = ex_init\<lparr>disk := \<lparr>files = [''/old/c.pdf'', ''/old/Rejected/Other/x.pdf''],
     dirs = [''/'', ''/old'', ''/old/Rejected'', ''/old/Rejected/Other'']\<rparr>\<rparr>"

text \<open>A candidate imported as \<open>Jane Doe\<close> whose CV is \<open>Jane Doe.pdf\<close>: the folder, the
  import of the CSV row, and the state after the CV has been rejected with key \<open>1\<close>.\<close>

definition ex_jane :: state where
  "ex_jane = ex_init\<lparr>disk := \<lparr>files = [''/cv/Jane Doe.pdf''], dirs = [''/'', ''/cv'']\<rparr>\<rparr>"

definition ex_jane_imported :: "report \<times> state" where
  "ex_jane_imported =
     import_emails [''name'', ''email''] [(Some ''Jane Doe'', Some ''jane@x.com'')]
       (open_folder ''/cv'' ex_jane)"

definition ex_jane_rejected :: "report \<times> state" where
  "ex_jane_rejected = move_current ''1'' (snd ex_jane_imported)"

text \<open>A folder with two lower-case PDFs, an upper-case one, a hidden one, a text file
  and a PDF in a subdirectory.\<close>

definition ex_mixed :: state where
  "ex_mixed = ex_init\<lparr>disk := \<lparr>files = [''/cv/b.pdf'', ''/cv/a.pdf'', ''/cv/C.PDF'',
       ''/cv/.h.pdf'', ''/cv/notes.txt'', ''/cv/sub/d.pdf''],
     dirs = [''/'', ''/cv'', ''/cv/sub'']\<rparr>\<rparr>"

section \<open>\<open>unique_dest\<close>: no collision, stable result\<close>

lemma unique_loop_free:
  "\<not> path_exists fs (path_join directory (unique_loop fs directory base ext candidate counter))"
proof (induction fs directory base ext candidate counter rule: unique_loop.induct)
  case (1 fs directory base ext candidate counter)
  then show ?case
    by (subst unique_loop.simps) simp
qed

lemma unique_loop_stable:
  assumes "\<forall>p. path_exists fs p \<longrightarrow> path_exists fs' p"
    and "\<not> path_exists fs' (path_join directory (unique_loop fs directory base ext candidate counter))"
  shows "unique_loop fs' directory base ext candidate counter =
         unique_loop fs directory base ext candidate counter"
  using assms
proof (induction fs directory base ext candidate counter rule: unique_loop.induct)
  case (1 fs directory base ext candidate counter)
  show ?case
  proof (cases "path_exists fs (path_join directory candidate)")
    case True
    then have next_fs: "unique_loop fs directory base ext candidate counter =
        unique_loop fs directory base ext (numbered base ext counter) (counter + 1)"
      by (subst unique_loop.simps) simp
    from True "1.prems"(1) have "path_exists fs' (path_join directory candidate)"
      by blast
    then have next_fs': "unique_loop fs' directory base ext candidate counter =
        unique_loop fs' directory base ext (numbered base ext counter) (counter + 1)"
      by (subst unique_loop.simps) simp
    from "1.IH" [OF True "1.prems"(1)] "1.prems"(2) next_fs next_fs'
    show ?thesis by simp
  next
    case False
    then have here: "unique_loop fs directory base ext candidate counter = candidate"
      by (subst unique_loop.simps) simp
    with "1.prems"(2) have "\<not> path_exists fs' (path_join directory candidate)"
      by simp
    then have "unique_loop fs' directory base ext candidate counter = candidate"
      by (subst unique_loop.simps) simp
    with here show ?thesis by simp
  qed
qed

text \<open>
  C6: \<open>unique_dest\<close> returns (the loop is total) a name that does not exist in the
  directory, and calling it again gives the same name as long as no file has been
  created at the path it returned: in every file system \<open>fs'\<close> that still has all the
  paths of \<open>fs\<close> (other files may have been created) and nothing at that path.
\<close>

theorem unique_dest_free_and_idempotent:
  "\<not> path_exists fs (path_join directory (unique_dest fs directory name)) \<and>
   (\<forall>fs'. (\<forall>p. path_exists fs p \<longrightarrow> path_exists fs' p) \<and>
          \<not> path_exists fs' (path_join directory (unique_dest fs directory name))
      \<longrightarrow> unique_dest fs' directory name = unique_dest fs directory name)"
  by (auto simp: unique_dest_def unique_loop_free split: prod.splits
      intro: unique_loop_stable)

theorem unique_dest_free_and_idempotent_witness:
  "unique_dest fsA ''/d'' ''a.pdf'' = ''a_2.pdf'' \<and>
   \<not> path_exists fsA ''/d/a_2.pdf'' \<and>
   unique_dest fsB ''/d'' ''a.pdf'' = ''a_2.pdf''"
proof -
  have r: "unique_dest fsA ''/d'' ''a.pdf'' = ''a_2.pdf''"
    by code_simp
  have j: "path_join ''/d'' ''a_2.pdf'' = ''/d/a_2.pdf''"
    by code_simp
  have ext: "\<forall>p. path_exists fsA p \<longrightarrow> path_exists fsB p"
    by (simp add: path_exists_def fsA_def fsB_def)
  have free: "\<not> path_exists fsB (path_join ''/d'' (unique_dest fsA ''/d'' ''a.pdf''))"
    by code_simp
  from unique_dest_free_and_idempotent [of fsA "''/d''" "''a.pdf''"] ext free r j
  show ?thesis by auto
qed

section \<open>\<open>normalize_name\<close> and the underscore\<close>

lemma code_lower_char:
  "code (lower_char c) =
     (if (65 \<le> code c \<and> code c \<le> 90) \<or> (192 \<le> code c \<and> code c \<le> 214) \<or>
         (216 \<le> code c \<and> code c \<le> 222)
      then code c + 32 else code c)"
  by (auto simp: lower_char_def code_def Let_def)

lemma lower_char_underscore: "lower_char c = CHR ''_'' \<longleftrightarrow> c = CHR ''_''"
proof
  assume "lower_char c = CHR ''_''"
  then have "code (lower_char c) = 95"
    by (simp add: code_def)
  then have "code c = 95"
    by (simp add: code_lower_char split: if_splits)
  then have "of_char c = (of_char CHR ''_'' :: nat)"
    by (simp add: code_def)
  then show "c = CHR ''_''"
    by (simp only: of_char_eq_iff)
next
  assume "c = CHR ''_''"
  then show "lower_char c = CHR ''_''"
    by (simp add: lower_char_def code_def)
qed

lemma underscore_classes: "is_word CHR ''_''" "\<not> is_space CHR ''_''"
  by (simp_all add: is_word_def is_space_def code_def)

abbreviation underscores :: "string \<Rightarrow> string" where
  "underscores s \<equiv> filter (\<lambda>c. c = CHR ''_'') s"

lemma underscores_dropWhile: "underscores (dropWhile is_space s) = underscores s"
  by (induction s) (auto simp: underscore_classes)

lemma underscores_collapse_ws: "underscores (collapse_ws s) = underscores s"
  by (induction s rule: collapse_ws.induct) (auto simp: underscores_dropWhile underscore_classes)

lemma underscores_strip: "underscores (strip s) = underscores s"
proof -
  have "underscores (strip s) = rev (underscores (dropWhile is_space (rev (dropWhile is_space s))))"
    by (simp add: strip_def rev_filter)
  also have "\<dots> = rev (underscores (rev (dropWhile is_space s)))"
    by (simp only: underscores_dropWhile)
  also have "\<dots> = underscores (dropWhile is_space s)"
    by (simp add: rev_filter)
  finally show ?thesis
    by (simp add: underscores_dropWhile)
qed

lemma underscores_lower: "underscores (lower s) = underscores s"
  by (induction s) (auto simp: lower_def lower_char_underscore)

lemma underscores_normalize: "underscores (normalize_name name) = underscores name"
proof -
  have "underscores (filter (\<lambda>c. is_word c \<or> is_space c) name) = underscores name"
    by (induction name) (auto simp: underscore_classes)
  then show ?thesis
    by (simp add: normalize_name_def underscores_strip underscores_collapse_ws underscores_lower)
qed

text \<open>
  C9: \<open>normalize_name\<close> keeps every underscore of its input (the key has as many as the
  raw name), so a name with an underscore and the same name without it get different
  keys.
\<close>

theorem normalize_name_preserves_underscores:
  "count_list (normalize_name name) CHR ''_'' = count_list name CHR ''_'' \<and>
   normalize_name (xs @ ''_'' @ ys) \<noteq> normalize_name (xs @ ys)"
proof -
  have count: "count_list s CHR ''_'' = length (underscores s)" for s
    by (induction s) auto
  have "length (underscores (normalize_name (xs @ ''_'' @ ys))) \<noteq>
        length (underscores (normalize_name (xs @ ys)))"
    by (simp add: underscores_normalize)
  then have "normalize_name (xs @ ''_'' @ ys) \<noteq> normalize_name (xs @ ys)"
    by auto
  then show ?thesis
    by (simp add: count underscores_normalize)
qed

section \<open>What the operations do to the state\<close>

lemma save_session_state_fields [simp]:
  "cv_list (save_session_state s) = cv_list s"
  "current_index (save_session_state s) = current_index s"
  "undo_stack (save_session_state s) = undo_stack s"
  "base_folder (save_session_state s) = base_folder s"
  "cand_email_map (save_session_state s) = cand_email_map s"
  "config (save_session_state s) = config s"
  "disk (save_session_state s) = disk s"
  by (simp_all add: save_session_state_def)

lemma commit_fields [simp]:
  "cv_list (commit s operation fs') = list_pop (current_index s) (cv_list s)"
  "current_index (commit s operation fs') =
     clamp_index (current_index s) (list_pop (current_index s) (cv_list s))"
  "undo_stack (commit s operation fs') =
     push_op (max_undo (config s)) operation (undo_stack s)"
  "base_folder (commit s operation fs') = base_folder s"
  "cand_email_map (commit s operation fs') = cand_email_map s"
  "config (commit s operation fs') = config s"
  "disk (commit s operation fs') = fs'"
  by (simp_all add: commit_def)

lemma move_current_Done:
  assumes "move_current reason_key s = (Done, s')"
  shows "0 \<le> current_index s \<and> current_index s < int (length (cv_list s)) \<and>
         (\<exists>operation fs'. s' = commit s operation fs' \<and>
            src operation = cv_list s ! nat (current_index s) \<and>
            position operation = current_index s)"
  using assms
  unfolding move_current_def commit_def push_op_def clamp_index_def Let_def
  by (auto split: if_splits option.splits)

lemma hold_Done:
  assumes "hold s = (Done, s')"
  shows "0 \<le> current_index s \<and> current_index s < int (length (cv_list s)) \<and>
         (\<exists>operation fs'. s' = commit s operation fs' \<and>
            src operation = cv_list s ! nat (current_index s) \<and>
            position operation = current_index s)"
  using assms
  unfolding hold_def commit_def push_op_def clamp_index_def Let_def
  by (auto split: if_splits option.splits)

lemma perform_Done:
  assumes "perform a s = (Done, s')"
  shows "0 \<le> current_index s \<and> current_index s < int (length (cv_list s)) \<and>
         (\<exists>operation fs'. s' = commit s operation fs' \<and>
            src operation = cv_list s ! nat (current_index s) \<and>
            position operation = current_index s)"
proof (cases a)
  case (MoveCurrent reason_key)
  with assms show ?thesis
    using move_current_Done [of reason_key s s'] by simp
next
  case HoldCurrent
  with assms show ?thesis
    using hold_Done [of s s'] by simp
qed

text \<open>The state a successful \<open>undo\<close> leaves, and what a failed one changes.\<close>

lemma undo_Done:
  assumes "undo overwrite s = (Done, s')"
  shows "undo_stack s \<noteq> [] \<and> undo_stack s' = butlast (undo_stack s) \<and>
         cv_list s' = list_insert (min (position (last (undo_stack s))) (int (length (cv_list s))))
                        (src (last (undo_stack s))) (cv_list s) \<and>
         current_index s' = min (position (last (undo_stack s))) (int (length (cv_list s))) \<and>
         config s' = config s \<and> base_folder s' = base_folder s \<and>
         cand_email_map s' = cand_email_map s"
  using assms
  unfolding undo_def Let_def
  by (auto split: if_splits option.splits sum.splits simp: min_def)

lemma undo_failed:
  assumes "undo overwrite s = (r, s')" and "r \<noteq> Done"
  shows "undo_stack s' = butlast (undo_stack s) \<and> cv_list s' = cv_list s \<and>
         current_index s' = current_index s \<and> config s' = config s \<and>
         base_folder s' = base_folder s \<and> cand_email_map s' = cand_email_map s"
  using assms
  unfolding undo_def Let_def
  by (auto split: if_splits option.splits sum.splits)

section \<open>Undo restores the queue\<close>

lemma list_insert_list_pop:
  assumes "0 \<le> i" and "i < int (length xs)"
  shows "list_insert (min i (int (length (list_pop i xs)))) (xs ! nat i) (list_pop i xs) = xs"
proof -
  from assms have n: "nat i < length xs" by simp
  then have len: "length (list_pop i xs) = length xs - 1"
    by (simp add: list_pop_def)
  with assms n have m: "min i (int (length (list_pop i xs))) = i"
    by (simp add: min_def)
  have "take (nat i) (list_pop i xs) = take (nat i) xs"
    using n by (simp add: list_pop_def)
  moreover have "drop (nat i) (list_pop i xs) = drop (Suc (nat i)) xs"
    using n by (simp add: list_pop_def)
  ultimately have "list_insert i (xs ! nat i) (list_pop i xs) =
      take (nat i) xs @ xs ! nat i # drop (Suc (nat i)) xs"
    using assms len n by (simp add: list_insert_def Let_def min_def)
  with n m show ?thesis
    by (simp add: id_take_nth_drop [symmetric])
qed

lemma push_op_room:
  "int (length stack) < m \<Longrightarrow> push_op m operation stack = stack @ [operation]"
  by (simp add: push_op_def)

lemma run_undos_snoc:
  "run_undos (answers @ [overwrite]) s =
     (case run_undos answers s of
        None \<Rightarrow> None
      | Some s' \<Rightarrow> (let (r, s'') = undo overwrite s' in if r = Done then Some s'' else None))"
  by (induction answers arbitrary: s) (auto split: prod.splits)

lemma undo_round_trip_general:
  assumes "run_actions acts s = Some s1"
    and "int (length (undo_stack s)) + int (length acts) \<le> max_undo (config s)"
    and "length answers = length acts"
    and "run_undos answers s1 = Some s2"
  shows "cv_list s2 = cv_list s \<and> undo_stack s2 = undo_stack s \<and> config s2 = config s"
  using assms
proof (induction acts arbitrary: s answers s2)
  case Nil
  then show ?case by simp
next
  case (Cons a acts)
  from Cons.prems(1) obtain s' where first: "perform a s = (Done, s')"
    and rest: "run_actions acts s' = Some s1"
    by (auto split: prod.splits if_splits)
  from perform_Done [OF first] obtain operation fs'
    where cur: "0 \<le> current_index s" "current_index s < int (length (cv_list s))"
      and s': "s' = commit s operation fs'"
      and op: "src operation = cv_list s ! nat (current_index s)"
              "position operation = current_index s"
    by blast
  from Cons.prems(2) have room: "int (length (undo_stack s)) < max_undo (config s)"
    by simp
  have stack': "undo_stack s' = undo_stack s @ [operation]"
    by (simp add: s' push_op_room [OF room])
  have config': "config s' = config s"
    by (simp add: s')
  from Cons.prems(3) obtain answers' overwrite where answers: "answers = answers' @ [overwrite]"
    by (cases answers rule: rev_cases) auto
  with Cons.prems(3) have len': "length answers' = length acts"
    by simp
  from Cons.prems(4) answers obtain s2' where undos: "run_undos answers' s1 = Some s2'"
    and final: "undo overwrite s2' = (Done, s2)"
    by (auto simp: run_undos_snoc split: option.splits prod.splits if_splits)
  have "int (length (undo_stack s')) + int (length acts) \<le> max_undo (config s')"
    using Cons.prems(2) by (simp add: stack' config')
  from Cons.IH [OF rest this len' undos]
  have mid: "cv_list s2' = cv_list s'" "undo_stack s2' = undo_stack s'" "config s2' = config s'"
    by simp_all
  have q': "cv_list s' = list_pop (current_index s) (cv_list s)"
    by (simp add: s')
  from undo_Done [OF final] mid stack' op q'
  have "undo_stack s2 = undo_stack s" 
    and "cv_list s2 = list_insert (min (current_index s)
            (int (length (list_pop (current_index s) (cv_list s)))))
          (cv_list s ! nat (current_index s)) (list_pop (current_index s) (cv_list s))"
    and "config s2 = config s'"
    by simp_all
  with list_insert_list_pop [OF cur] config' show ?case
    by simp
qed

text \<open>
  C1: from a state with an empty undo ledger, after any run of at most \<open>max_undo\<close>
  successful \<open>move_current\<close>/\<open>hold\<close> operations, as many successful calls of \<open>undo\<close>
  (whatever the user answers to the overwrite question) leave \<open>cv_list\<close> with its
  original contents in the original order, and the ledger empty.
\<close>

theorem undo_restores_queue:
  assumes "undo_stack s = []"
    and "int (length acts) \<le> max_undo (config s)"
    and "run_actions acts s = Some s1"
    and "length answers = length acts"
    and "run_undos answers s1 = Some s2"
  shows "cv_list s2 = cv_list s \<and> undo_stack s2 = []"
  using undo_round_trip_general [OF assms(3) _ assms(4) assms(5)] assms(1) assms(2)
  by simp

theorem undo_restores_queue_witness:
  "cv_list ex_open = [''/cv/a.pdf'', ''/cv/b.pdf''] \<and>
   (\<exists>s1 s2. run_actions [MoveCurrent ''1'', HoldCurrent] ex_open = Some s1 \<and>
      cv_list s1 = [] \<and>
      run_undos [False, False] s1 = Some s2 \<and>
      cv_list s2 = [''/cv/a.pdf'', ''/cv/b.pdf''] \<and> undo_stack s2 = [])"
proof -
  have q: "cv_list ex_open = [''/cv/a.pdf'', ''/cv/b.pdf'']"
    by code_simp
  have "map_option cv_list (run_actions [MoveCurrent ''1'', HoldCurrent] ex_open) = Some []"
    by code_simp
  then obtain s1 where r1: "run_actions [MoveCurrent ''1'', HoldCurrent] ex_open = Some s1"
    and q1: "cv_list s1 = []"
    by auto
  have "map_option cv_list (Option.bind (run_actions [MoveCurrent ''1'', HoldCurrent] ex_open)
      (run_undos [False, False])) = Some [''/cv/a.pdf'', ''/cv/b.pdf'']"
    by code_simp
  with r1 obtain s2 where r2: "run_undos [False, False] s1 = Some s2"
    by auto
  have empty: "undo_stack ex_open = []"
    by code_simp
  have room: "int (length [MoveCurrent ''1'', HoldCurrent]) \<le> max_undo (config ex_open)"
    by code_simp
  have "length [False, False] = length [MoveCurrent ''1'', HoldCurrent]"
    by simp
  from undo_restores_queue [OF empty room r1 this r2] q q1 r1 r2 show ?thesis
    by simp
qed

section \<open>Frame of a successful move\<close>

text \<open>
  C10: a successful \<open>move_current\<close> or \<open>hold\<close> removes the element of \<open>cv_list\<close> at
  \<open>current_index\<close> and no other (the elements before and after it stay, in order), and
  leaves \<open>base_folder\<close>, \<open>cand_email_map\<close> and the configuration as they were.
\<close>

theorem move_hold_frame:
  assumes "move_current reason_key s = (Done, s') \<or> hold s = (Done, s')"
  shows "0 \<le> current_index s \<and> current_index s < int (length (cv_list s)) \<and>
         cv_list s' = take (nat (current_index s)) (cv_list s) @
                      drop (nat (current_index s) + 1) (cv_list s) \<and>
         cv_list s = take (nat (current_index s)) (cv_list s) @
                     cv_list s ! nat (current_index s) #
                     drop (nat (current_index s) + 1) (cv_list s) \<and>
         base_folder s' = base_folder s \<and> cand_email_map s' = cand_email_map s \<and>
         config s' = config s"
proof -
  from assms obtain a where "perform a s = (Done, s')"
    by (metis perform.simps)
  from perform_Done [OF this] obtain operation fs'
    where cur: "0 \<le> current_index s" "current_index s < int (length (cv_list s))"
      and s': "s' = commit s operation fs'"
    by blast
  from cur have "nat (current_index s) < length (cv_list s)"
    by simp
  then have "cv_list s = take (nat (current_index s)) (cv_list s) @
      cv_list s ! nat (current_index s) # drop (nat (current_index s) + 1) (cv_list s)"
    by (simp add: id_take_nth_drop [symmetric])
  with cur s' show ?thesis
    by (simp add: list_pop_def)
qed


theorem move_hold_frame_witness:
  "fst (move_current ''1'' ex_open) = Done \<and>
   current_index ex_open = 0 \<and>
   cv_list ex_open = [''/cv/a.pdf'', ''/cv/b.pdf''] \<and>
   cv_list (snd (move_current ''1'' ex_open)) = [''/cv/b.pdf''] \<and>
   base_folder (snd (move_current ''1'' ex_open)) = base_folder ex_open \<and>
   cand_email_map (snd (move_current ''1'' ex_open)) = cand_email_map ex_open \<and>
   config (snd (move_current ''1'' ex_open)) = config ex_open"
proof -
  have d: "fst (move_current ''1'' ex_open) = Done"
    by code_simp
  then have "move_current ''1'' ex_open = (Done, snd (move_current ''1'' ex_open)) \<or>
      hold ex_open = (Done, snd (move_current ''1'' ex_open))"
    by (metis prod.collapse)
  from move_hold_frame [OF this] have frame:
    "cv_list (snd (move_current ''1'' ex_open)) =
       take (nat (current_index ex_open)) (cv_list ex_open) @
       drop (nat (current_index ex_open) + 1) (cv_list ex_open)"
    "base_folder (snd (move_current ''1'' ex_open)) = base_folder ex_open"
    "cand_email_map (snd (move_current ''1'' ex_open)) = cand_email_map ex_open"
    "config (snd (move_current ''1'' ex_open)) = config ex_open"
    by simp_all
  have i: "current_index ex_open = 0"
    by code_simp
  have q: "cv_list ex_open = [''/cv/a.pdf'', ''/cv/b.pdf'']"
    by code_simp
  from frame d i q show ?thesis
    by simp
qed

section \<open>The bounded ledger\<close>

lemma push_op_drop:
  assumes "1 \<le> n" and "length stack \<le> n"
  shows "push_op (int n) operation stack = drop (length stack + 1 - n) (stack @ [operation])"
proof (cases "length stack = n")
  case True
  with assms have "stack \<noteq> []" by auto
  with True assms(1) show ?thesis
    by (simp add: push_op_def drop_Suc)
next
  case False
  with assms show ?thesis
    by (simp add: push_op_def)
qed

lemma last_push_op:
  assumes "1 \<le> n" and "length stack \<le> n"
  shows "last (push_op (int n) operation stack) = operation"
proof (cases "length stack = n")
  case True
  with assms have "stack \<noteq> []" by auto
  with True show ?thesis
    by (simp add: push_op_def)
next
  case False
  with assms show ?thesis
    by (simp add: push_op_def)
qed

lemma length_push_op:
  assumes "length stack \<le> n"
  shows "length (push_op (int n) operation stack) \<le> n"
  using assms by (simp add: push_op_def)

lemma ledger_after_run:
  assumes "run_actions acts s = Some s'"
    and "max_undo (config s) = int n" and "1 \<le> n" and "length (undo_stack s) \<le> n"
  shows "length (pushed acts s) = length acts \<and>
         undo_stack s' =
           drop (length (undo_stack s) + length acts - n) (undo_stack s @ pushed acts s)"
  using assms
proof (induction acts arbitrary: s)
  case Nil
  then show ?case by simp
next
  case (Cons a acts)
  from Cons.prems(1) obtain s1 where first: "perform a s = (Done, s1)"
    and rest: "run_actions acts s1 = Some s'"
    by (auto split: prod.splits if_splits)
  from perform_Done [OF first] obtain operation fs'
    where s1: "s1 = commit s operation fs'"
    by blast
  let ?st = "undo_stack s"
  have st1: "undo_stack s1 = drop (length ?st + 1 - n) (?st @ [operation])"
    using Cons.prems(2,3,4) by (simp add: s1 push_op_drop)
  have newest: "last (undo_stack s1) = operation"
    using Cons.prems(2,3,4) by (simp add: s1 last_push_op)
  have len1: "length (undo_stack s1) \<le> n"
    using Cons.prems(2,4) by (simp add: s1 length_push_op)
  have cfg1: "max_undo (config s1) = int n"
    using Cons.prems(2) by (simp add: s1)
  from Cons.IH [OF rest cfg1 Cons.prems(3) len1]
  have len: "length (pushed acts s1) = length acts"
    and st': "undo_stack s' =
      drop (length (undo_stack s1) + length acts - n) (undo_stack s1 @ pushed acts s1)"
    by simp_all
  have p: "pushed (a # acts) s = operation # pushed acts s1"
    using first newest by simp
  show ?case
  proof (cases "length ?st = n")
    case True
    with Cons.prems(3) have ne: "?st \<noteq> []" by auto
    from True have "undo_stack s1 = tl ?st @ [operation]"
      using ne Cons.prems(3) by (simp add: st1 drop_Suc)
    moreover from this True ne Cons.prems(3) have "length (undo_stack s1) = n"
      by simp
    ultimately have "undo_stack s' = drop (length acts) (tl ?st @ operation # pushed acts s1)"
      using st' by simp
    also have "\<dots> = drop (Suc (length acts)) (?st @ operation # pushed acts s1)"
      by (simp only: drop_Suc tl_append2 [OF ne])
    finally show ?thesis
      using True p len by simp
  next
    case False
    with Cons.prems(4) have "length ?st < n" by simp
    then have "undo_stack s1 = ?st @ [operation]"
      by (simp add: st1)
    with st' p len show ?thesis
      by simp
  qed
qed

lemma list_pop_distinct:
  assumes "distinct xs" and "0 \<le> i" and "i < int (length xs)"
  shows "distinct (list_pop i xs) \<and> set (list_pop i xs) = set xs - {xs ! nat i}"
proof -
  from assms have n: "nat i < length xs" by simp
  then have split: "xs = take (nat i) xs @ xs ! nat i # drop (Suc (nat i)) xs"
    by (simp add: id_take_nth_drop [symmetric])
  with assms(1) have d: "distinct (take (nat i) xs @ xs ! nat i # drop (Suc (nat i)) xs)"
    by simp
  then have "distinct (take (nat i) xs @ drop (Suc (nat i)) xs)"
    by auto
  moreover from d have "xs ! nat i \<notin> set (take (nat i) xs) \<union> set (drop (Suc (nat i)) xs)"
    by auto
  moreover have "set xs = set (take (nat i) xs) \<union> {xs ! nat i} \<union> set (drop (Suc (nat i)) xs)"
    by (subst split) auto
  ultimately show ?thesis
    by (auto simp: list_pop_def)
qed

lemma pushed_sources:
  assumes "run_actions acts s = Some s'"
    and "max_undo (config s) = int n" and "1 \<le> n" and "length (undo_stack s) \<le> n"
    and "distinct (cv_list s)"
  shows "distinct (map src (pushed acts s)) \<and> set (map src (pushed acts s)) \<subseteq> set (cv_list s)"
  using assms
proof (induction acts arbitrary: s)
  case Nil
  then show ?case by simp
next
  case (Cons a acts)
  from Cons.prems(1) obtain s1 where first: "perform a s = (Done, s1)"
    and rest: "run_actions acts s1 = Some s'"
    by (auto split: prod.splits if_splits)
  from perform_Done [OF first] obtain operation fs'
    where cur: "0 \<le> current_index s" "current_index s < int (length (cv_list s))"
      and s1: "s1 = commit s operation fs'"
      and op: "src operation = cv_list s ! nat (current_index s)"
    by blast
  have newest: "last (undo_stack s1) = operation"
    using Cons.prems(2,3,4) by (simp add: s1 last_push_op)
  have len1: "length (undo_stack s1) \<le> n"
    using Cons.prems(2,4) by (simp add: s1 length_push_op)
  have cfg1: "max_undo (config s1) = int n"
    using Cons.prems(2) by (simp add: s1)
  from list_pop_distinct [OF Cons.prems(5) cur]
  have q1: "distinct (cv_list s1)"
    "set (cv_list s1) = set (cv_list s) - {src operation}"
    by (simp_all add: s1 op)
  from Cons.IH [OF rest cfg1 Cons.prems(3) len1 q1(1)]
  have "distinct (map src (pushed acts s1))"
    and "set (map src (pushed acts s1)) \<subseteq> set (cv_list s) - {src operation}"
    using q1(2) by simp_all
  moreover have "pushed (a # acts) s = operation # pushed acts s1"
    using first newest by simp
  moreover have "src operation \<in> set (cv_list s)"
    using cur by (simp add: op)
  ultimately show ?case
    by auto
qed

lemma pushed_head:
  assumes "run_actions acts s = Some s'" and "acts \<noteq> []"
    and "max_undo (config s) = int n" and "1 \<le> n" and "length (undo_stack s) \<le> n"
  shows "src (hd (pushed acts s)) = cv_list s ! nat (current_index s) \<and>
         position (hd (pushed acts s)) = current_index s"
proof -
  from assms(2) obtain a rest where acts: "acts = a # rest"
    by (cases acts) auto
  with assms(1) obtain s1 where first: "perform a s = (Done, s1)"
    by (auto split: prod.splits if_splits)
  from perform_Done [OF first] obtain operation fs'
    where s1: "s1 = commit s operation fs'"
      and op: "src operation = cv_list s ! nat (current_index s)"
              "position operation = current_index s"
    by blast
  have "last (undo_stack s1) = operation"
    using assms(3,4,5) by (simp add: s1 last_push_op)
  with first op show ?thesis
    by (simp add: acts)
qed

text \<open>
  C3: with \<open>max_undo \<ge> 1\<close> and an empty ledger, after \<open>max_undo + 1\<close> successful
  \<open>move_current\<close>/\<open>hold\<close> operations the ledger holds exactly \<open>max_undo\<close> entries: the
  operations recorded, in order, without the first one (the one for the CV that stood at
  the cursor at the start), the newest last. The entry of the first operation is gone;
  when the queue had no duplicate path, no remaining entry even equals it.
\<close>

theorem ledger_evicts_oldest:
  assumes "1 \<le> max_undo (config s)"
    and "undo_stack s = []"
    and "int (length acts) = max_undo (config s) + 1"
    and "run_actions acts s = Some s'"
  shows "int (length (undo_stack s')) = max_undo (config s) \<and>
         length (pushed acts s) = length acts \<and>
         src (hd (pushed acts s)) = cv_list s ! nat (current_index s) \<and>
         position (hd (pushed acts s)) = current_index s \<and>
         undo_stack s' = tl (pushed acts s) \<and>
         last (undo_stack s') = last (pushed acts s) \<and>
         (distinct (cv_list s) \<longrightarrow> hd (pushed acts s) \<notin> set (undo_stack s'))"
proof -
  define n where "n = nat (max_undo (config s))"
  with assms(1) have m: "max_undo (config s) = int n" and n: "1 \<le> n"
    by simp_all
  from assms(3) m have acts: "length acts = Suc n"
    by simp
  then have "acts \<noteq> []"
    by auto
  from pushed_head [OF assms(4) this m n] assms(2)
  have first: "src (hd (pushed acts s)) = cv_list s ! nat (current_index s)"
    "position (hd (pushed acts s)) = current_index s"
    by simp_all
  from ledger_after_run [OF assms(4) m n] assms(2) acts
  have len: "length (pushed acts s) = Suc n"
    and st: "undo_stack s' = tl (pushed acts s)"
    by (simp_all add: drop_Suc)
  from len n have two: "tl (pushed acts s) \<noteq> []"
    by (cases "pushed acts s") auto
  have absent: "hd (pushed acts s) \<notin> set (undo_stack s')" if "distinct (cv_list s)"
  proof -
    from pushed_sources [OF assms(4) m n _ that] assms(2)
    have "distinct (map src (pushed acts s))"
      by simp
    then have "distinct (pushed acts s)"
      by (simp add: distinct_map)
    with len st show ?thesis
      by (cases "pushed acts s") auto
  qed
  from len st m acts two absent first show ?thesis
    by (simp add: last_tl)
qed

theorem ledger_evicts_oldest_witness:
  "max_undo (config ex_small) = 1 \<and>
   pushed [MoveCurrent ''1'', HoldCurrent] ex_small = [ex_op_a, ex_op_b] \<and>
   (\<exists>s'. run_actions [MoveCurrent ''1'', HoldCurrent] ex_small = Some s' \<and>
      undo_stack s' = [ex_op_b] \<and> ex_op_a \<notin> set (undo_stack s'))"
proof -
  have m: "max_undo (config ex_small) = 1"
    by code_simp
  have p: "pushed [MoveCurrent ''1'', HoldCurrent] ex_small = [ex_op_a, ex_op_b]"
    by code_simp
  have "map_option cv_list (run_actions [MoveCurrent ''1'', HoldCurrent] ex_small) = Some []"
    by code_simp
  then obtain s' where r: "run_actions [MoveCurrent ''1'', HoldCurrent] ex_small = Some s'"
    by auto
  have one: "1 \<le> max_undo (config ex_small)"
    by (simp add: m)
  have empty: "undo_stack ex_small = []"
    by code_simp
  have len: "int (length [MoveCurrent ''1'', HoldCurrent]) = max_undo (config ex_small) + 1"
    by (simp add: m)
  have d: "distinct (cv_list ex_small)"
    by code_simp
  from ledger_evicts_oldest [OF one empty len r] d
  have st: "undo_stack s' = tl (pushed [MoveCurrent ''1'', HoldCurrent] ex_small)"
    and absent: "hd (pushed [MoveCurrent ''1'', HoldCurrent] ex_small) \<notin> set (undo_stack s')"
    by blast+
  note st' = st [unfolded p list.sel] and absent' = absent [unfolded p list.sel]
  from m p r st' absent' show ?thesis
    by blast
qed

section \<open>The invariants in every state of a session\<close>

lemma move_current_failed:
  assumes "move_current reason_key s = (r, s')" and "r \<noteq> Done"
  shows "cv_list s' = cv_list s \<and> current_index s' = current_index s \<and>
         undo_stack s' = undo_stack s"
  using assms
  unfolding move_current_def Let_def
  by (auto split: if_splits option.splits)

lemma hold_failed:
  assumes "hold s = (r, s')" and "r \<noteq> Done"
  shows "cv_list s' = cv_list s \<and> current_index s' = current_index s \<and>
         undo_stack s' = undo_stack s"
  using assms
  unfolding hold_def Let_def
  by (auto split: if_splits option.splits)

lemma import_rows_fields:
  "cv_list (snd (import_rows rows s)) = cv_list s \<and>
   current_index (snd (import_rows rows s)) = current_index s \<and>
   undo_stack (snd (import_rows rows s)) = undo_stack s"
  by (induction rows s rule: import_rows.induct) (simp_all add: Let_def)

lemma import_emails_fields:
  "cv_list (snd (import_emails fieldnames rows s)) = cv_list s \<and>
   current_index (snd (import_emails fieldnames rows s)) = current_index s \<and>
   undo_stack (snd (import_emails fieldnames rows s)) = undo_stack s"
  using import_rows_fields [of rows s]
  by (auto simp: import_emails_def split: prod.splits bool.splits)

lemma ledger_inv_tl: "ledger_inv q stack \<Longrightarrow> ledger_inv q (tl stack)"
  by (cases stack) (auto simp: ledger_inv_def)

lemma ledger_inv_butlast: "ledger_inv q stack \<Longrightarrow> ledger_inv q (butlast stack)"
  by (cases stack rule: rev_cases) (auto simp: ledger_inv_def)

lemma inv_commit:
  assumes "queue_inv q i" and "ledger_inv q stack"
    and "0 \<le> i" and "i < int (length q)"
    and "src operation = q ! nat i" and "position operation = i"
  shows "queue_inv (list_pop i q) (clamp_index i (list_pop i q)) \<and>
         ledger_inv (list_pop i q) (push_op m operation stack)"
proof -
  from assms(1) have d: "distinct q"
    by (simp add: queue_inv_def)
  from list_pop_distinct [OF d assms(3,4)]
  have d': "distinct (list_pop i q)" and set': "set (list_pop i q) = set q - {q ! nat i}"
    by simp_all
  have len: "length (list_pop i q) = length q - 1"
    using assms(3,4) by (simp add: list_pop_def)
  have queue: "queue_inv (list_pop i q) (clamp_index i (list_pop i q))"
  proof (cases "list_pop i q = []")
    case True
    with d' show ?thesis
      by (simp add: queue_inv_def clamp_index_def)
  next
    case False
    then have "0 < length (list_pop i q)"
      by simp
    with d' assms(3,4) len False show ?thesis
      by (simp add: queue_inv_def clamp_index_def)
  qed
  have mem: "q ! nat i \<in> set q"
    using assms(3,4) by simp
  with assms(2) have fresh: "q ! nat i \<notin> set (map src stack)"
    by (auto simp: ledger_inv_def list_all_iff)
  have "ledger_inv (list_pop i q) (stack @ [operation])"
    using assms(2,3,5,6) fresh set'
    by (auto simp: ledger_inv_def list_all_iff)
  then have "ledger_inv (list_pop i q) (push_op m operation stack)"
    by (auto simp: push_op_def dest: ledger_inv_tl)
  with queue show ?thesis by simp
qed

lemma length_list_insert: "length (list_insert j x q) = Suc (length q)"
  by (simp add: list_insert_def Let_def)

lemma set_list_insert: "set (list_insert j x q) = insert x (set q)"
proof -
  have "set (take n q @ x # drop n q) = insert x (set (take n q @ drop n q))" for n
    by (simp only: set_append list.set) blast
  then show ?thesis
    by (simp add: list_insert_def Let_def del: set_append)
qed

lemma distinct_list_insert:
  assumes "distinct q" and "x \<notin> set q"
  shows "distinct (list_insert j x q)"
proof -
  have "distinct (take n q @ x # drop n q)" for n
  proof -
    from assms(1) have "distinct (take n q)" "distinct (drop n q)"
      "set (take n q) \<inter> set (drop n q) = {}"
      by (metis append_take_drop_id distinct_append)+
    moreover from assms(2) have "x \<notin> set (take n q)" "x \<notin> set (drop n q)"
      by (auto dest: in_set_takeD in_set_dropD)
    ultimately show ?thesis
      by auto
  qed
  then show ?thesis
    by (simp add: list_insert_def Let_def)
qed

lemma inv_undo:
  assumes "queue_inv q i" and "ledger_inv q stack" and "stack \<noteq> []"
  shows "queue_inv (list_insert (min (position (last stack)) (int (length q)))
                      (src (last stack)) q)
                   (min (position (last stack)) (int (length q))) \<and>
         ledger_inv (list_insert (min (position (last stack)) (int (length q)))
                      (src (last stack)) q)
                    (butlast stack)"
proof -
  from assms(3) obtain rest operation where stack: "stack = rest @ [operation]"
    by (cases stack rule: rev_cases) auto
  let ?j = "min (position operation) (int (length q))"
  from assms(2) have fresh: "src operation \<notin> set q" and pos: "0 \<le> position operation"
    and others: "src operation \<notin> set (map src rest)"
    and rest: "ledger_inv q rest"
    by (auto simp: stack ledger_inv_def)
  from assms(1) have "distinct q"
    by (simp add: queue_inv_def)
  with fresh have "distinct (list_insert ?j (src operation) q)"
    by (simp add: distinct_list_insert)
  moreover have "list_insert ?j (src operation) q \<noteq> []"
    using length_list_insert [of ?j "src operation" q] by auto
  moreover have "0 \<le> ?j" "?j < int (length (list_insert ?j (src operation) q))"
    using pos by (simp_all add: length_list_insert)
  ultimately have queue: "queue_inv (list_insert ?j (src operation) q) ?j"
    by (simp add: queue_inv_def)
  from others have "\<forall>other \<in> set rest. src other \<noteq> src operation"
    by (metis image_eqI set_map)
  with rest have "ledger_inv (list_insert ?j (src operation) q) rest"
    by (simp add: ledger_inv_def list_all_iff set_list_insert)
  with queue show ?thesis
    by (simp add: stack)
qed

lemma basename_no_sep: "sep \<notin> set (basename p)"
proof -
  have "sep \<notin> set (takeWhile (\<lambda>c. c \<noteq> sep) (rev p))"
    by (auto dest: set_takeWhileD)
  then show ?thesis
    by (simp add: basename_def path_split_def Let_def)
qed

lemma path_join_inj:
  assumes "sep \<notin> set x" and "sep \<notin> set y" and "path_join d x = path_join d y"
  shows "x = y"
proof -
  define pre where "pre = (if d = [] \<or> last d = sep then d else d @ [sep])"
  have "path_join d z = pre @ z" if "sep \<notin> set z" for z
  proof -
    from that have "take 1 z \<noteq> [sep]"
      by (cases z) auto
    then show ?thesis
      by (simp add: path_join_def pre_def)
  qed
  with assms have "pre @ x = pre @ y"
    by simp
  then show ?thesis
    by simp
qed

lemma listdir_names:
  assumes "listdir fs d = Some names"
  shows "distinct names \<and> list_all (\<lambda>x. sep \<notin> set x) names"
proof -
  from assms obtain ps where names: "names = remdups (map basename ps)"
    by (auto simp only: listdir_def split: if_splits)
  have "sep \<notin> set x" if "x \<in> set names" for x
    using that basename_no_sep by (auto simp: names)
  then show ?thesis
    by (simp add: names list_all_iff)
qed

lemma distinct_glob_pdf: "distinct (glob_pdf fs d)"
proof -
  obtain dir pattern where sp: "path_split (path_join d ''*.pdf'') = (dir, pattern)"
    by (cases "path_split (path_join d ''*.pdf'')")
  define names where "names = (case listdir fs dir of None \<Rightarrow> [] | Some ns \<Rightarrow> ns)"
  have names: "distinct names \<and> list_all (\<lambda>x. sep \<notin> set x) names"
    using listdir_names [of fs dir] by (cases "listdir fs dir") (simp_all add: names_def)
  define kept where
    "kept = filter (\<lambda>x. endswith x ''.pdf'') (filter (\<lambda>x. \<not> ishidden x) names)"
  have "distinct kept" and "\<forall>x \<in> set kept. sep \<notin> set x"
    using names by (auto simp: kept_def list_all_iff)
  then have "distinct (map (path_join dir) kept)"
    by (auto simp: distinct_map intro!: inj_onI dest: path_join_inj)
  then show ?thesis
    by (simp add: glob_pdf_def sp kept_def names_def)
qed

lemma sort_eq_Nil: "sort xs = [] \<longleftrightarrow> xs = []"
  by (metis length_0_conv length_sort)

lemma open_folder_fields:
  assumes "d \<noteq> []"
  shows "cv_list (open_folder d s) = sort (glob_pdf (disk s) d)"
    and "current_index (open_folder d s) = (if glob_pdf (disk s) d \<noteq> [] then 0 else - 1)"
    and "undo_stack (open_folder d s) = []"
    and "base_folder (open_folder d s) = d"
    and "disk (open_folder d s) = disk s"
    and "config (open_folder d s) = config s"
    and "cand_email_map (open_folder d s) = cand_email_map s"
  using assms by (simp_all add: open_folder_def Let_def sort_eq_Nil)

lemma inv_open_folder:
  assumes "session_inv s"
  shows "session_inv (open_folder d s)"
proof (cases "d = []")
  case True
  with assms show ?thesis
    by (simp add: open_folder_def)
next
  case False
  have "distinct (sort (glob_pdf (disk s) d))"
    by (simp add: distinct_glob_pdf)
  then show ?thesis
    by (simp add: session_inv_def queue_inv_def ledger_inv_def open_folder_fields [OF False]
        sort_eq_Nil)
qed

lemma load_session_state_fields:
  assumes "state_file s = Some st"
  shows "cv_list (load_session_state s) = snap_queue st"
    and "undo_stack (load_session_state s) = snap_ledger st"
    and "current_index (load_session_state s) =
           (if snap_cursor st \<ge> int (length (snap_queue st))
            then (if snap_queue st \<noteq> [] then max 0 (int (length (snap_queue st)) - 1) else - 1)
            else snap_cursor st)"
  using assms
  by (simp_all add: load_session_state_def Let_def snap_queue_def snap_cursor_def
      snap_ledger_def)

lemma inv_load_session_state:
  assumes "snapshot_inv (state_file s)" and "session_inv s"
  shows "session_inv (load_session_state s)"
proof (cases "state_file s")
  case None
  with assms(2) show ?thesis
    by (simp add: load_session_state_def)
next
  case (Some st)
  with assms(1) have "queue_inv (snap_queue st) (snap_cursor st)"
    and "ledger_inv (snap_queue st) (snap_ledger st)"
    by (simp_all add: snapshot_inv_def)
  then show ?thesis
    by (simp add: session_inv_def load_session_state_fields [OF Some] queue_inv_def)
qed

lemma inv_perform:
  assumes "session_inv s" and "perform a s = (r, s')"
  shows "session_inv s'"
proof (cases "r = Done")
  case True
  with assms(2) perform_Done [of a s s'] obtain operation fs'
    where cur: "0 \<le> current_index s" "current_index s < int (length (cv_list s))"
      and s': "s' = commit s operation fs'"
      and op: "src operation = cv_list s ! nat (current_index s)"
              "position operation = current_index s"
    by blast
  from assms(1) have "queue_inv (cv_list s) (current_index s)"
    and "ledger_inv (cv_list s) (undo_stack s)"
    by (simp_all add: session_inv_def)
  from inv_commit [OF this cur op] show ?thesis
    by (simp add: session_inv_def s')
next
  case False
  with assms(2) have "cv_list s' = cv_list s \<and> current_index s' = current_index s \<and>
      undo_stack s' = undo_stack s"
    by (cases a) (auto dest: move_current_failed hold_failed)
  with assms(1) show ?thesis
    by (simp add: session_inv_def)
qed

lemma inv_undo_step:
  assumes "session_inv s" and "undo overwrite s = (r, s')"
  shows "session_inv s'"
proof (cases "r = Done")
  case True
  with assms(2) undo_Done [of overwrite s s'] 
  have ne: "undo_stack s \<noteq> []" and st: "undo_stack s' = butlast (undo_stack s)"
    and q: "cv_list s' = list_insert (min (position (last (undo_stack s)))
              (int (length (cv_list s)))) (src (last (undo_stack s))) (cv_list s)"
    and i: "current_index s' = min (position (last (undo_stack s))) (int (length (cv_list s)))"
    by simp_all
  from assms(1) have "queue_inv (cv_list s) (current_index s)"
    and "ledger_inv (cv_list s) (undo_stack s)"
    by (simp_all add: session_inv_def)
  from inv_undo [OF this ne] show ?thesis
    by (simp add: session_inv_def st q i)
next
  case False
  from undo_failed [OF assms(2) False] assms(1) show ?thesis
    by (auto simp: session_inv_def dest: ledger_inv_butlast)
qed

lemma reachable_session_inv: "reachable s \<Longrightarrow> session_inv s"
proof (induction rule: reachable.induct)
  case (startup s)
  then have "session_inv s"
    by (simp add: session_inv_def queue_inv_def ledger_inv_def)
  with startup(5) show ?case
    by (rule inv_load_session_state)
next
  case (open_folder s d)
  then show ?case by (simp add: inv_open_folder)
next
  case (move_current s reason_key)
  have "perform (MoveCurrent reason_key) s =
      (fst (move_current reason_key s), snd (move_current reason_key s))"
    by simp
  with move_current.IH show ?case
    by (rule inv_perform)
next
  case (hold s)
  have "perform HoldCurrent s = (fst (hold s), snd (hold s))"
    by simp
  with hold.IH show ?case
    by (rule inv_perform)
next
  case (undo s overwrite)
  have "undo overwrite s = (fst (undo overwrite s), snd (undo overwrite s))"
    by simp
  with undo.IH show ?case
    by (rule inv_undo_step)
next
  case (import_emails s fieldnames rows)
  then show ?case
    using import_emails_fields [of fieldnames rows s] by (simp add: session_inv_def)
next
  case (timer s)
  then show ?case by (simp add: session_inv_def)
next
  case (outside s fs' stored)
  then show ?case by (simp add: session_inv_def)
qed

lemma saved_snapshot_inv:
  assumes "reachable s"
  shows "snapshot_inv (state_file (save_session_state s)) \<or> base_folder s = []"
  using reachable_session_inv [OF assms]
  by (simp add: save_session_state_def snapshot_inv_def session_inv_def snap_queue_def
      snap_cursor_def snap_ledger_def)

text \<open>
  C4 (as amended): the CvQueue invariant (no duplicate path in \<open>cv_list\<close>;
  \<open>current_index\<close> is \<open>-1\<close> when \<open>cv_list\<close> is empty and an index of it otherwise) holds
  in every state of a session: after \<open>load_session_state\<close> at startup, provided the
  session state file is absent or holds a snapshot that satisfies the invariants (as the
  snapshots the application writes do), and then after every \<open>open_folder\<close>,
  \<open>move_current\<close>, \<open>hold\<close> and \<open>undo\<close>, whatever happens to the files in between.
\<close>

theorem queue_invariant_reachable:
  "reachable s \<Longrightarrow> queue_inv (cv_list s) (current_index s)"
  by (drule reachable_session_inv) (simp add: session_inv_def)

theorem queue_invariant_reachable_witness:
  "cv_list (snd (undo False ex_two)) = [''/cv/b.pdf''] \<and>
   current_index (snd (undo False ex_two)) = 0 \<and>
   queue_inv (cv_list (snd (undo False ex_two))) (current_index (snd (undo False ex_two)))"
proof -
  have "load_session_state ex_init = ex_init"
    by (simp add: load_session_state_def ex_init_def)
  moreover have "reachable (load_session_state ex_init)"
    by (rule reachable.startup) (simp_all add: ex_init_def snapshot_inv_def)
  ultimately have "reachable ex_init"
    by simp
  then have "reachable ex_open"
    unfolding ex_open_def by (rule reachable.open_folder)
  then have "reachable (snd (move_current ''1'' ex_open))"
    by (rule reachable.move_current)
  then have "reachable ex_two"
    unfolding ex_two_def by (rule reachable.hold)
  then have "reachable (snd (undo False ex_two))"
    by (rule reachable.undo)
  from queue_invariant_reachable [OF this]
  have "queue_inv (cv_list (snd (undo False ex_two))) (current_index (snd (undo False ex_two)))" .
  moreover have "cv_list (snd (undo False ex_two)) = [''/cv/b.pdf'']"
    by code_simp
  moreover have "current_index (snd (undo False ex_two)) = 0"
    by code_simp
  ultimately show ?thesis
    by simp
qed

text \<open>As the specification states it, for \<open>load_session_state\<close> on any session state
  file, the property fails: the stored list is restored as it is, so a file that names a
  path twice gives a queue with a duplicate.\<close>

theorem load_session_state_counterexample:
  "queue_inv (cv_list ex_stale) (current_index ex_stale) \<and>
   cv_list (load_session_state ex_stale) = [''/cv/a.pdf'', ''/cv/a.pdf''] \<and>
   \<not> queue_inv (cv_list (load_session_state ex_stale))
                (current_index (load_session_state ex_stale))"
  by code_simp


section \<open>Undo when the moved file is gone\<close>

lemma makedirs_exists:
  assumes "makedirs fs name = Some fs1"
  shows "path_exists fs1 p \<longleftrightarrow> path_exists fs p \<or> p \<in> set (dir_chain name)"
  using assms
  by (auto simp: makedirs_def path_exists_def Let_def split: if_splits)

lemma undo_pops: "undo_stack (snd (undo overwrite s)) = butlast (undo_stack s)"
proof (cases "fst (undo overwrite s) = Done")
  case True
  then have "undo overwrite s = (Done, snd (undo overwrite s))"
    by (metis prod.collapse)
  from undo_Done [OF this] show ?thesis
    by simp
next
  case False
  have "undo overwrite s = (fst (undo overwrite s), snd (undo overwrite s))"
    by simp
  from undo_failed [OF this False] show ?thesis
    by simp
qed

lemma undo_missing:
  assumes "undo_stack s \<noteq> []"
    and "\<not> path_exists (disk s) (dest (last (undo_stack s)))"
    and "dest (last (undo_stack s)) \<notin> set (dir_chain (dirname (src (last (undo_stack s)))))"
  shows "fst (undo overwrite s) =
           (if makedirs (disk s) (dirname (src (last (undo_stack s)))) = None
            then UndoFailed else OriginalMissing)"
proof (cases "makedirs (disk s) (dirname (src (last (undo_stack s))))")
  case None
  with assms(1) show ?thesis
    by (simp add: undo_def Let_def)
next
  case (Some fs1)
  with assms(2,3) have "\<not> path_exists fs1 (dest (last (undo_stack s)))"
    by (simp add: makedirs_exists)
  with assms(1) Some show ?thesis
    by (simp add: undo_def Let_def)
qed

lemma makedirs_isdir:
  assumes "makedirs fs name = Some fs1" and "p \<in> set (dir_chain name)"
  shows "isdir fs1 p"
  using assms
  by (auto simp: makedirs_def isdir_def Let_def split: if_splits)

lemma fs_remove_dirs: "fs_remove fs p = Some fs2 \<Longrightarrow> dirs fs2 = dirs fs"
  by (auto simp: fs_remove_def split: if_splits)

lemma fs_move_into_itself:
  assumes "isdir fs a" and "a \<in> set (dir_chain (dirname b))"
  shows "fs_move fs a b = None"
  using assms by (simp add: fs_move_def)

lemma undo_not_done_when_missing:
  assumes "undo_stack s \<noteq> []"
    and "\<not> path_exists (disk s) (dest (last (undo_stack s)))"
  shows "fst (undo overwrite s) \<noteq> Done"
proof (cases "makedirs (disk s) (dirname (src (last (undo_stack s))))")
  case None
  with assms(1) show ?thesis
    by (simp add: undo_def Let_def)
next
  case (Some fs1)
  let ?op = "last (undo_stack s)"
  show ?thesis
  proof (cases "path_exists fs1 (dest ?op)")
    case False
    with assms(1) Some show ?thesis
      by (simp add: undo_def Let_def)
  next
    case True
    with assms(2) Some have "dest ?op \<in> set (dir_chain (dirname (src ?op)))"
      by (simp add: makedirs_exists)
    with Some have dir: "isdir fs1 (dest ?op)"
      by (rule makedirs_isdir)
    have stuck: "fs_move fs2 (dest ?op) (src ?op) = None" if "dirs fs2 = dirs fs1" for fs2
    proof -
      from dir that have "isdir fs2 (dest ?op)"
        by (simp add: isdir_def)
      with \<open>dest ?op \<in> set (dir_chain (dirname (src ?op)))\<close> show ?thesis
        by (simp add: fs_move_into_itself)
    qed
    from assms(1) Some True show ?thesis
      by (auto simp: undo_def Let_def stuck fs_remove_dirs split: option.splits)
  qed
qed


lemma undo_reports:
  assumes "undo_stack s \<noteq> []"
  shows "fst (undo overwrite s) = Done \<or> fst (undo overwrite s) = OriginalMissing \<or>
         fst (undo overwrite s) = UndoFailed \<or> fst (undo overwrite s) = Declined \<or>
         fst (undo overwrite s) = RemoveFailed"
  using assms
  by (auto simp: undo_def Let_def split: option.splits)

text \<open>
  C5: when the ledger is not empty and the destination recorded by its latest entry no
  longer exists, \<open>undo\<close> removes the entry from the ledger without pushing it back,
  leaves \<open>cv_list\<close> and \<open>current_index\<close> as they are, and reports the failure. The
  report is the missing file, or the failed undo when the source directory cannot be
  created again; only a destination that is itself a directory on the way to the source
  path, which \<open>undo\<close> creates before it looks, can lead to another failure report.
  The next \<open>undo\<close> takes the entry below: it removes that one from the ledger and, when
  it succeeds, puts that entry's source path back in the queue.
\<close>

theorem undo_missing_destination:
  assumes "undo_stack s \<noteq> []"
    and "\<not> path_exists (disk s) (dest (last (undo_stack s)))"
    and "undo overwrite s = (r, s')"
    and "undo overwrite' s' = (r'', s'')"
  shows "(r = OriginalMissing \<or> r = UndoFailed \<or> r = Declined \<or> r = RemoveFailed) \<and>
         (dest (last (undo_stack s)) \<notin> set (dir_chain (dirname (src (last (undo_stack s)))))
            \<longrightarrow> r = (if makedirs (disk s) (dirname (src (last (undo_stack s)))) = None
                     then UndoFailed else OriginalMissing)) \<and>
         undo_stack s' = butlast (undo_stack s) \<and>
         cv_list s' = cv_list s \<and> current_index s' = current_index s \<and>
         undo_stack s'' = butlast (butlast (undo_stack s)) \<and>
         (r'' = Done \<longrightarrow>
            cv_list s'' =
              list_insert (min (position (last (butlast (undo_stack s))))
                             (int (length (cv_list s))))
                (src (last (butlast (undo_stack s)))) (cv_list s))"
proof -
  from undo_not_done_when_missing [OF assms(1,2), of overwrite] assms(3)
  have failed: "r \<noteq> Done"
    by simp
  with undo_reports [OF assms(1), of overwrite] assms(3)
  have report: "r = OriginalMissing \<or> r = UndoFailed \<or> r = Declined \<or> r = RemoveFailed"
    by simp
  have exact: "r = (if makedirs (disk s) (dirname (src (last (undo_stack s)))) = None
      then UndoFailed else OriginalMissing)"
    if "dest (last (undo_stack s)) \<notin> set (dir_chain (dirname (src (last (undo_stack s)))))"
    using undo_missing [OF assms(1,2) that, of overwrite] assms(3) by simp
  from undo_failed [OF assms(3) failed]
  have first: "undo_stack s' = butlast (undo_stack s)" "cv_list s' = cv_list s"
    "current_index s' = current_index s"
    by simp_all
  from undo_pops [of overwrite' s'] assms(4) first(1)
  have second: "undo_stack s'' = butlast (butlast (undo_stack s))"
    by simp
  have "cv_list s'' =
      list_insert (min (position (last (butlast (undo_stack s)))) (int (length (cv_list s))))
        (src (last (butlast (undo_stack s)))) (cv_list s)" if "r'' = Done"
    using undo_Done [of overwrite' s' s''] assms(4) that first by simp
  with report exact first second show ?thesis
    by blast
qed

theorem undo_missing_destination_witness:
  "undo_stack ex_lost = [ex_op_a, ex_op_b] \<and>
   \<not> path_exists (disk ex_lost) (dest ex_op_b) \<and>
   fst (undo False ex_lost) = OriginalMissing \<and>
   undo_stack (snd (undo False ex_lost)) = [ex_op_a] \<and>
   cv_list (snd (undo False ex_lost)) = cv_list ex_lost \<and>
   current_index (snd (undo False ex_lost)) = current_index ex_lost \<and>
   fst (undo False (snd (undo False ex_lost))) = Done \<and>
   undo_stack (snd (undo False (snd (undo False ex_lost)))) = [] \<and>
   cv_list (snd (undo False (snd (undo False ex_lost)))) = [''/cv/a.pdf'']"
proof -
  have st: "undo_stack ex_lost = [ex_op_a, ex_op_b]"
    by code_simp
  have ne: "undo_stack ex_lost \<noteq> []"
    by (simp add: st)
  have gone: "\<not> path_exists (disk ex_lost) (dest (last (undo_stack ex_lost)))"
    by code_simp
  have apart: "dest (last (undo_stack ex_lost)) \<notin>
      set (dir_chain (dirname (src (last (undo_stack ex_lost)))))"
    by code_simp
  have made: "makedirs (disk ex_lost) (dirname (src (last (undo_stack ex_lost)))) \<noteq> None"
    by code_simp
  have q: "cv_list ex_lost = []"
    by code_simp
  have again: "fst (undo False (snd (undo False ex_lost))) = Done"
    by code_simp
  have u1: "undo False ex_lost = (fst (undo False ex_lost), snd (undo False ex_lost))"
    by simp
  have u2: "undo False (snd (undo False ex_lost)) =
      (fst (undo False (snd (undo False ex_lost))), snd (undo False (snd (undo False ex_lost))))"
    by simp
  note facts = undo_missing_destination [OF ne gone u1 u2]
  have last_b: "dest (last (undo_stack ex_lost)) = dest ex_op_b"
    by (simp add: st)
  have older: "butlast (undo_stack ex_lost) = [ex_op_a]"
    "butlast (butlast (undo_stack ex_lost)) = []"
    by (simp_all add: st)
  have ins: "list_insert (min (position ex_op_a) (int (length ([]::string list)))) (src ex_op_a) []
      = [''/cv/a.pdf'']"
    by code_simp
  from facts apart made again have
    "fst (undo False ex_lost) = OriginalMissing"
    "undo_stack (snd (undo False ex_lost)) = [ex_op_a]"
    "cv_list (snd (undo False ex_lost)) = cv_list ex_lost"
    "current_index (snd (undo False ex_lost)) = current_index ex_lost"
    "undo_stack (snd (undo False (snd (undo False ex_lost)))) = []"
    "cv_list (snd (undo False (snd (undo False ex_lost)))) = [''/cv/a.pdf'']"
    using older ins q by simp_all
  with st gone last_b again show ?thesis
    by simp
qed


section \<open>Export right after opening a folder\<close>

lemma folder_rows_names:
  "map Filename (folder_rows s rejected_dir entry) =
     (case entry of (key, folder) \<Rightarrow>
        (case listdir (disk s) (path_join rejected_dir folder) of
           None \<Rightarrow> []
         | Some names \<Rightarrow> filter (\<lambda>fname. endswith (lower fname) ''.pdf'') names))"
  by (cases entry) (simp add: folder_rows_def Let_def comp_def split: option.splits)

lemma export_rows_names:
  "map Filename (concat (map (folder_rows s (path_join (base_folder s) ''Rejected''))
       (reason_map (config s)))) =
     rejected_pdfs (disk s) (reason_map (config s)) (base_folder s)"
proof -
  have "map Filename (concat (map (folder_rows s rejected_dir) reasons)) =
      concat (map (\<lambda>(key, folder).
        (case listdir (disk s) (path_join rejected_dir folder) of
           None \<Rightarrow> []
         | Some names \<Rightarrow> filter (\<lambda>fname. endswith (lower fname) ''.pdf'') names)) reasons)"
    for rejected_dir reasons
    by (induction reasons) (simp_all add: folder_rows_names)
  then show ?thesis
    by (simp add: rejected_pdfs_def)
qed

text \<open>
  C8 (as amended): for every folder in which no reason folder below \<open>Rejected\<close> holds an
  entry whose lower-cased name ends in \<open>.pdf\<close> (a folder without a \<open>Rejected\<close>
  directory, for one), \<open>open_folder\<close> followed at once by \<open>export_csv\<close> exports no row.
\<close>

theorem export_after_open_folder:
  assumes "d \<noteq> []"
    and "rejected_pdfs (disk s) (reason_map (config s)) d = []"
  shows "export_csv out_path (open_folder d s) = NoRejected"
proof -
  let ?s = "open_folder d s"
  let ?rows = "concat (map (folder_rows ?s (path_join (base_folder ?s) ''Rejected''))
      (reason_map (config ?s)))"
  have "map Filename ?rows = rejected_pdfs (disk ?s) (reason_map (config ?s)) (base_folder ?s)"
    by (rule export_rows_names)
  also have "\<dots> = rejected_pdfs (disk s) (reason_map (config s)) d"
    by (simp only: open_folder_fields [OF assms(1)])
  also have "\<dots> = []"
    by (rule assms(2))
  finally have "?rows = []"
    by (simp only: map_is_Nil_conv)
  moreover have "base_folder ?s \<noteq> []"
    using assms(1) by (simp add: open_folder_fields)
  ultimately show ?thesis
    by (simp add: export_csv_def Let_def)
qed

theorem export_after_open_folder_witness:
  "rejected_pdfs (disk ex_init) (reason_map (config ex_init)) ''/cv'' = [] \<and>
   export_csv ''list.csv'' (open_folder ''/cv'' ex_init) = NoRejected"
proof -
  have d: "''/cv'' \<noteq> []"
    by simp
  have none: "rejected_pdfs (disk ex_init) (reason_map (config ex_init)) ''/cv'' = []"
    by code_simp
  from export_after_open_folder [OF d none] none show ?thesis
    by simp
qed

text \<open>As the specification states it, for every folder, the property fails: the rows
  come from the files found on disk, so a folder that already holds rejected CVs exports
  them before any move of this session.\<close>

theorem export_after_open_folder_counterexample:
  "cv_list (open_folder ''/old'' ex_triaged) = [''/old/c.pdf''] \<and>
   undo_stack (open_folder ''/old'' ex_triaged) = [] \<and>
   export_csv ''list.csv'' (open_folder ''/old'' ex_triaged) =
     Written ''list.csv''
       [\<lparr>Filename = ''x.pdf'', ReasonKey = ''3'', ReasonText = ''Other'', Email = []\<rparr>]"
  by code_simp

section \<open>The email of an imported candidate at export\<close>

text \<open>
  C2: the specification expects the row exported for \<open>Jane Doe.pdf\<close> to carry the email imported
  for \<open>Jane Doe\<close>. The import stores it under the normalized key \<open>jane doe\<close>, in both
  tiers; \<open>export_csv\<close> looks the raw stem \<open>Jane Doe\<close> up, finds nothing, and exports an
  empty \<open>Email\<close>.
\<close>

theorem export_email_lookup_misses:
  "fst ex_jane_imported = Done \<and> fst ex_jane_rejected = Done \<and>
   cand_email_map (snd ex_jane_rejected) ''jane doe'' = Some ''jane@x.com'' \<and>
   email_map (config (snd ex_jane_rejected)) ''jane doe'' = Some ''jane@x.com'' \<and>
   cand_email_map (snd ex_jane_rejected) ''Jane Doe'' = None \<and>
   email_map (config (snd ex_jane_rejected)) ''Jane Doe'' = None \<and>
   export_csv ''list.csv'' (snd ex_jane_rejected) =
     Written ''list.csv''
       [\<lparr>Filename = ''Jane Doe.pdf'', ReasonKey = ''1'',
         ReasonText = ''UnsatisfactoryEducation'', Email = []\<rparr>]"
  by code_simp

section \<open>The listing of \<open>open_folder\<close>\<close>

text \<open>
  C7: the specification expects every file of the folder with a \<open>.pdf\<close> extension in any case.
  Of the entries \<open>b.pdf\<close>, \<open>a.pdf\<close>, \<open>C.PDF\<close>, \<open>.h.pdf\<close>, \<open>notes.txt\<close> and \<open>sub\<close>,
  \<open>open_folder\<close> lists \<open>a.pdf\<close> and \<open>b.pdf\<close> only, sorted by path: \<open>C.PDF\<close> and
  \<open>.h.pdf\<close> are left out, although both have the extension and both pass the test
  \<open>export_csv\<close> applies to a name.
\<close>

theorem open_folder_listing_misses:
  "listdir (disk ex_mixed) ''/cv'' =
     Some [''b.pdf'', ''a.pdf'', ''C.PDF'', ''.h.pdf'', ''notes.txt'', ''sub''] \<and>
   cv_list (open_folder ''/cv'' ex_mixed) = [''/cv/a.pdf'', ''/cv/b.pdf''] \<and>
   snd (splitext ''C.PDF'') = ''.PDF'' \<and> snd (splitext ''.h.pdf'') = ''.pdf'' \<and>
   endswith (lower ''C.PDF'') ''.pdf'' \<and> endswith (lower ''.h.pdf'') ''.pdf''"
  by code_simp


end
